theory Spec2Isabelle
  imports Main
begin

section \<open>Values of the Python program\<close>

text \<open>
  The value of \<^verbatim>\<open>json.loads\<close>: Python's \<^verbatim>\<open>None\<close>, \<^verbatim>\<open>bool\<close>, numbers, \<^verbatim>\<open>str\<close>,
  \<^verbatim>\<open>list\<close> and \<^verbatim>\<open>dict\<close> (its items, keys distinct). The program never computes with a
  number, only its kind matters, so numbers are integers here. A \<^verbatim>\<open>str\<close> is a list of
  code points below 256.
\<close>

datatype json =
    JNull
  | JBool bool
  | JNum int
  | JStr string
  | JArr "json list"
  | JObj "(string \<times> json) list"

text \<open>
  The exceptions the program can meet. \<^verbatim>\<open>CancelledError\<close>, \<^verbatim>\<open>KeyboardInterrupt\<close> and
  \<^verbatim>\<open>SystemExit\<close> derive from \<^verbatim>\<open>BaseException\<close> only; every other one is an
  \<^verbatim>\<open>Exception\<close>. \<^verbatim>\<open>ClientError\<close> is aiohttp's (a refused handshake, an unreachable host).
\<close>

datatype exc =
    JSONDecodeError
  | AttributeError
  | IndexError
  | KeyError
  | TypeError
  | RuntimeError
  | WebSocketDisconnect
  | ConnectionResetError
  | ClientError
  | OtherException string
  | CancelledError
  | KeyboardInterrupt
  | SystemExit

fun is_Exception :: "exc \<Rightarrow> bool" where
  "is_Exception CancelledError = False"
| "is_Exception KeyboardInterrupt = False"
| "is_Exception SystemExit = False"
| "is_Exception _ = True"

text \<open>\<^verbatim>\<open>x.get(k, d)\<close>: only a \<^verbatim>\<open>dict\<close> has the method.\<close>

fun py_get :: "json \<Rightarrow> string \<Rightarrow> json \<Rightarrow> exc + json" where
  "py_get (JObj kvs) k d = Inr (case map_of kvs k of Some v \<Rightarrow> v | None \<Rightarrow> d)"
| "py_get _ k d = Inl AttributeError"

text \<open>
  \<^verbatim>\<open>x[0]\<close>: the first element of a list or the first character of a string,
  \<^verbatim>\<open>IndexError\<close> when there is none; a \<^verbatim>\<open>dict\<close> decoded from JSON has string keys only,
  so \<^verbatim>\<open>KeyError\<close>; the other values are not subscriptable.
\<close>

fun py_item0 :: "json \<Rightarrow> exc + json" where
  "py_item0 (JArr []) = Inl IndexError"
| "py_item0 (JArr (v # vs)) = Inr v"
| "py_item0 (JStr []) = Inl IndexError"
| "py_item0 (JStr (c # cs)) = Inr (JStr [c])"
| "py_item0 (JObj kvs) = Inl KeyError"
| "py_item0 _ = Inl TypeError"

text \<open>\<^verbatim>\<open>str.isspace\<close> on one character, for the code points below 256.\<close>

definition py_isspace :: "char \<Rightarrow> bool" where
  "py_isspace c =
     (let n = (of_char c :: nat)
      in (9 \<le> n \<and> n \<le> 13) \<or> (28 \<le> n \<and> n \<le> 32) \<or> n = 133 \<or> n = 160)"

definition str_strip :: "string \<Rightarrow> string" where
  "str_strip s = rev (dropWhile py_isspace (rev (dropWhile py_isspace s)))"

text \<open>\<^verbatim>\<open>x.strip()\<close>: only a \<^verbatim>\<open>str\<close> has the method.\<close>

fun py_strip :: "json \<Rightarrow> exc + string" where
  "py_strip (JStr s) = Inr (str_strip s)"
| "py_strip _ = Inl AttributeError"

section \<open>The world outside the program\<close>

datatype ws_msg_type =
  CONTINUATION | TEXT | BINARY | PING | PONG | CLOSE | CLOSING | CLOSED | ERROR

record ws_msg =
  mtype :: ws_msg_type
  mdata :: string

text \<open>
  What one step of \<^verbatim>\<open>async for msg in dg_ws\<close> gives: a message, or an exception of the
  connection. The end of the list is \<^verbatim>\<open>StopAsyncIteration\<close>.
\<close>

datatype ws_item = Yield ws_msg | IterRaise exc

type_synonym bytes = string

text \<open>The lines the program prints.\<close>

datatype log_line =
    ClientConnected
  | StartSignalReceived
  | DeepgramClosedOrErrored
  | ErrorInReceiverTask exc
  | SessionCleanedUp
  | ClientDisconnected
  | ErrorOccurred exc
  | ClosingConnection

text \<open>What the program does to the outside, in the order it does it.\<close>

datatype event =
    Print log_line
  | SendJson json
  | Accept
  | ReceiveText
  | NewClientSession
  | WsConnect
  | CreateReceiverTask
  | CreateReceiveBytes
  | GotBytes bytes
  | ReceiveBytesFailed exc
  | SendBytes bytes
  | CancelReceiveBytes
  | CancelReceiverTask
  | CloseUpstream
  | CloseClientSession

text \<open>
  The client's socket as the relay sees it: what has been done so far, and the outcome
  of each coming \<^verbatim>\<open>send_json\<close> (\<open>None\<close>: the send succeeds; the list exhausted: every
  later send succeeds).
\<close>

record client_ws =
  trace :: "event list"
  json_sends :: "exc option list"

definition emit :: "event \<Rightarrow> 'a client_ws_scheme \<Rightarrow> 'a client_ws_scheme" where
  "emit e w = w\<lparr>trace := trace w @ [e]\<rparr>"

definition send_json :: "json \<Rightarrow> 'a client_ws_scheme \<Rightarrow> exc option \<times> 'a client_ws_scheme" where
  "send_json payload w =
     (case json_sends w of
        [] \<Rightarrow> (None, emit (SendJson payload) w)
      | r # rs \<Rightarrow> (r, emit (SendJson payload) (w\<lparr>json_sends := rs\<rparr>)))"

section \<open>The transcript relay\<close>

text \<open>
  \<^verbatim>\<open>response.get("channel", {}).get("alternatives", [{}])[0].get("transcript", "")\<close>,
  left to right; the first call that raises ends the expression.
\<close>

definition get_transcript :: "json \<Rightarrow> exc + json" where
  "get_transcript response =
     (case py_get response ''channel'' (JObj []) of
        Inl e \<Rightarrow> Inl e
      | Inr channel \<Rightarrow>
          (case py_get channel ''alternatives'' (JArr [JObj []]) of
             Inl e \<Rightarrow> Inl e
           | Inr alternatives \<Rightarrow>
               (case py_item0 alternatives of
                  Inl e \<Rightarrow> Inl e
                | Inr first \<Rightarrow> py_get first ''transcript'' (JStr ''''))))"

definition stt_transcript :: "json \<Rightarrow> json \<Rightarrow> json" where
  "stt_transcript transcript is_final =
     JObj [(''type'', JStr ''stt_transcript''), (''text'', transcript), (''isFinal'', is_final)]"

text \<open>
  The body of the loop of \<^verbatim>\<open>deepgram_to_client_receiver\<close> on one message: the loop goes
  on, the loop is left by \<^verbatim>\<open>break\<close>, or an exception leaves the body.
  \<open>loads\<close> is \<^verbatim>\<open>json.loads\<close>: \<open>None\<close> where it raises \<^verbatim>\<open>JSONDecodeError\<close>.
\<close>

datatype 'w step = Continue 'w | Break 'w | Raised exc 'w

definition receiver_body ::
  "(string \<Rightarrow> json option) \<Rightarrow> ws_msg \<Rightarrow> 'a client_ws_scheme \<Rightarrow> 'a client_ws_scheme step" where
  "receiver_body loads msg w =
     (if mtype msg = TEXT then
        (case loads (mdata msg) of
           None \<Rightarrow> Raised JSONDecodeError w
         | Some response \<Rightarrow>
             (case get_transcript response of
                Inl e \<Rightarrow> Raised e w
              | Inr transcript \<Rightarrow>
                  (case py_get response ''is_final'' (JBool False) of
                     Inl e \<Rightarrow> Raised e w
                   | Inr is_final \<Rightarrow>
                       (case py_strip transcript of
                          Inl e \<Rightarrow> Raised e w
                        | Inr stripped \<Rightarrow>
                            if stripped \<noteq> [] then
                              (case send_json (stt_transcript transcript is_final) w of
                                 (None, w') \<Rightarrow> Continue w'
                               | (Some e, w') \<Rightarrow> Raised e w')
                            else Continue w))))
      else if mtype msg \<in> {CLOSED, ERROR} then
        Break (emit (Print DeepgramClosedOrErrored) w)
      else Continue w)"

text \<open>The \<^verbatim>\<open>async for\<close> loop inside the \<^verbatim>\<open>try\<close>: how it ends (\<open>Some e\<close>: by \<open>e\<close>).\<close>

fun receiver_loop ::
  "(string \<Rightarrow> json option) \<Rightarrow> ws_item list \<Rightarrow> 'a client_ws_scheme \<Rightarrow> exc option \<times> 'a client_ws_scheme" where
  "receiver_loop loads [] w = (None, w)"
| "receiver_loop loads (IterRaise e # rest) w = (Some e, w)"
| "receiver_loop loads (Yield msg # rest) w =
     (case receiver_body loads msg w of
        Continue w' \<Rightarrow> receiver_loop loads rest w'
      | Break w' \<Rightarrow> (None, w')
      | Raised e w' \<Rightarrow> (Some e, w'))"

text \<open>
  \<^verbatim>\<open>except Exception as e: print(...)\<close>: an \<^verbatim>\<open>Exception\<close> is printed and the function
  returns; anything else leaves the function. The first component is the exception the
  caller sees, \<open>None\<close> when the function returns.
\<close>

definition except_Exception ::
  "exc option \<times> 'a client_ws_scheme \<Rightarrow> exc option \<times> 'a client_ws_scheme" where
  "except_Exception r =
     (case r of
        (None, w) \<Rightarrow> (None, w)
      | (Some e, w) \<Rightarrow>
          if is_Exception e then (None, emit (Print (ErrorInReceiverTask e)) w)
          else (Some e, w))"

definition deepgram_to_client_receiver ::
  "(string \<Rightarrow> json option) \<Rightarrow> ws_item list \<Rightarrow> 'a client_ws_scheme \<Rightarrow> exc option \<times> 'a client_ws_scheme" where
  "deepgram_to_client_receiver loads dg_ws w = except_Exception (receiver_loop loads dg_ws w)"

text \<open>The payloads handed to \<^verbatim>\<open>send_json\<close>, in order.\<close>

fun sent_json :: "event list \<Rightarrow> json list" where
  "sent_json [] = []"
| "sent_json (SendJson p # es) = p # sent_json es"
| "sent_json (e # es) = sent_json es"

section \<open>The endpoint and its world\<close>

text \<open>
  What the client sends: a text frame, a binary frame, or the disconnect.
  \<^verbatim>\<open>receive_text\<close> on a binary frame and \<^verbatim>\<open>receive_bytes\<close> on a text frame read an
  entry the message of the server does not have (\<^verbatim>\<open>KeyError\<close>); both raise
  \<^verbatim>\<open>WebSocketDisconnect\<close> on the disconnect.
\<close>

datatype client_event = CText string | CBytes bytes | CDisconnect

fun text_of :: "client_event \<Rightarrow> exc + string" where
  "text_of (CText s) = Inr s"
| "text_of (CBytes b) = Inl KeyError"
| "text_of CDisconnect = Inl WebSocketDisconnect"

fun bytes_of :: "client_event \<Rightarrow> exc + bytes" where
  "bytes_of (CBytes b) = Inr b"
| "bytes_of (CText s) = Inl KeyError"
| "bytes_of CDisconnect = Inl WebSocketDisconnect"

text \<open>
  The event loop runs one task at a time. What wakes a waiting task is listed in the
  order it happens: a frame of the client arrives (\<open>Client\<close>); the relay task runs one
  turn of its loop, on the next item of its connection (\<open>Upstream\<close>); or both happen
  before the main task runs again (\<open>Both\<close>). When the list is exhausted nothing happens
  any more, and a task that waits then waits for ever.
\<close>

datatype arrival = Client client_event | Upstream | Both client_event

text \<open>
  What \<^verbatim>\<open>ws_connect\<close> gives: an exception, or a connection with the items its iteration
  will give and the value its \<^verbatim>\<open>closed\<close> attribute has when the clean-up reads it (the
  library closes a connection by itself when the peer closes it).
\<close>

datatype connect_result = ConnectFails exc | Connected "ws_item list" bool

text \<open>A task of the relay: running, finished (with the exception that left it), cancelled.\<close>

datatype task = Running | Finished "exc option" | Cancelled

text \<open>How a call of the main task ends: it returns, it raises, or it never comes back.\<close>

datatype 'a outcome = Returns 'a | Raises exc | Waits

text \<open>
  The world: the trace and the outcomes of the sends to the client (\<open>client_ws\<close>), what
  is still to arrive, the outcome of each coming call of \<^verbatim>\<open>ws_connect\<close>,
  \<^verbatim>\<open>dg_ws.send_bytes\<close> (with the number of turns the relay takes while the call is
  awaited), \<^verbatim>\<open>dg_ws.close\<close> and \<^verbatim>\<open>aiohttp_session.close\<close>, and the variables of
  \<^verbatim>\<open>websocket_endpoint\<close>: \<open>receiver_task\<close> (\<open>None\<close>: the name is not bound yet), the
  items the relay has still to read, \<open>dg_ws\<close> (\<open>None\<close>: Python's \<^verbatim>\<open>None\<close>; \<open>Some c\<close>: a
  connection whose \<^verbatim>\<open>closed\<close> reads \<open>c\<close>) and \<^verbatim>\<open>aiohttp_session.closed\<close>. An exhausted
  list of outcomes means that every later call succeeds; an exhausted list of connects
  that the connect never completes.
\<close>

record world = client_ws +
  inbox :: "arrival list"
  connects :: "connect_result list"
  byte_sends :: "(nat \<times> exc option) list"
  upstream_closes :: "exc option list"
  session_closes :: "exc option list"
  receiver_task :: "task option"
  upstream :: "ws_item list"
  dg_ws :: "bool option"
  aiohttp_session_closed :: bool

text \<open>
  \<^verbatim>\<open>done()\<close> of a task, and \<^verbatim>\<open>receiver_task.done()\<close> where the forwarding loop reads it
  (the name is bound there).
\<close>

fun task_done :: "task \<Rightarrow> bool" where
  "task_done Running = False"
| "task_done (Finished r) = True"
| "task_done Cancelled = True"

definition receiver_done :: "world \<Rightarrow> bool" where
  "receiver_done w = (case receiver_task w of None \<Rightarrow> True | Some t \<Rightarrow> task_done t)"

text \<open>
  One turn of the relay task: the body of the loop of \<^verbatim>\<open>deepgram_to_client_receiver\<close> on
  the next item of the connection, and the end of the function when the loop ends
  there (the iteration is exhausted, \<^verbatim>\<open>break\<close>, or an exception, which the \<^verbatim>\<open>except\<close>
  clause of the function meets). A task that is not running takes no turn.
\<close>

definition relay_ends :: "exc option \<times> world \<Rightarrow> world" where
  "relay_ends rw = (snd rw)\<lparr>receiver_task := Some (Finished (fst rw))\<rparr>"

definition relay_turn :: "(string \<Rightarrow> json option) \<Rightarrow> world \<Rightarrow> world" where
  "relay_turn loads w =
     (if receiver_task w \<noteq> Some Running then w
      else
        (case upstream w of
           [] \<Rightarrow> relay_ends (None, w)
         | IterRaise e # rest \<Rightarrow> relay_ends (except_Exception (Some e, w\<lparr>upstream := rest\<rparr>))
         | Yield msg # rest \<Rightarrow>
             (case receiver_body loads msg (w\<lparr>upstream := rest\<rparr>) of
                Continue w' \<Rightarrow> w'
              | Break w' \<Rightarrow> relay_ends (None, w')
              | Raised e w' \<Rightarrow> relay_ends (except_Exception (Some e, w')))))"

primrec relay_turns :: "(string \<Rightarrow> json option) \<Rightarrow> nat \<Rightarrow> world \<Rightarrow> world" where
  "relay_turns loads 0 w = w"
| "relay_turns loads (Suc n) w = relay_turns loads n (relay_turn loads w)"

lemma relay_turn_inbox [simp]: "inbox (relay_turn loads w) = inbox w"
  by (auto simp: relay_turn_def relay_ends_def except_Exception_def receiver_body_def emit_def
      send_json_def receiver_done_def
      split: list.splits ws_item.splits step.splits option.splits sum.splits if_splits prod.splits)

lemma relay_turns_inbox [simp]: "inbox (relay_turns loads n w) = inbox w"
  by (induction n arbitrary: w) auto

lemma emit_inbox [simp]: "inbox (emit e w) = inbox w"
  by (simp add: emit_def)

lemma emit_receiver_done [simp]: "receiver_done (emit e w) = receiver_done w"
  by (simp add: emit_def receiver_done_def)

text \<open>
  \<^verbatim>\<open>await websocket.receive_text()\<close> (line 63): the main task waits for the next frame
  of the client.
\<close>

function receive_text :: "(string \<Rightarrow> json option) \<Rightarrow> world \<Rightarrow> string outcome \<times> world" where
  "receive_text loads w =
     (case inbox w of
        [] \<Rightarrow> (Waits, w)
      | a # rest \<Rightarrow>
          (case a of
             Upstream \<Rightarrow> receive_text loads (relay_turn loads (w\<lparr>inbox := rest\<rparr>))
           | Client ev \<Rightarrow>
               (case text_of ev of Inl e \<Rightarrow> Raises e | Inr s \<Rightarrow> Returns s, w\<lparr>inbox := rest\<rparr>)
           | Both ev \<Rightarrow>
               (case text_of ev of Inl e \<Rightarrow> Raises e | Inr s \<Rightarrow> Returns s,
                relay_turn loads (w\<lparr>inbox := rest\<rparr>))))"
  by pat_completeness auto
termination
  by (relation "measure (\<lambda>(loads, w). length (inbox w))") auto

declare receive_text.simps [simp del]

text \<open>
  \<^verbatim>\<open>await asyncio.wait({client_data_task, receiver_task}, return_when=FIRST_COMPLETED)\<close>
  (lines 93 to 96), seen from \<^verbatim>\<open>client_data_task\<close>: it is in \<^verbatim>\<open>done\<close>, with the result or
  the exception of \<^verbatim>\<open>receive_bytes\<close>, or it is in \<^verbatim>\<open>pending\<close> (then the relay task is
  done), or the wait never returns.
\<close>

datatype wait_result = ClientDone "exc + bytes" | ClientPending | WaitsForever

definition complete_receive :: "client_event \<Rightarrow> world \<Rightarrow> wait_result \<times> world" where
  "complete_receive ev w =
     (case bytes_of ev of
        Inl e \<Rightarrow> (ClientDone (Inl e), emit (ReceiveBytesFailed e) w)
      | Inr data \<Rightarrow> (ClientDone (Inr data), emit (GotBytes data) w))"

function wait_first :: "(string \<Rightarrow> json option) \<Rightarrow> world \<Rightarrow> wait_result \<times> world" where
  "wait_first loads w =
     (if receiver_done w then (ClientPending, w)
      else
        (case inbox w of
           [] \<Rightarrow> (WaitsForever, w)
         | a # rest \<Rightarrow>
             (case a of
                Upstream \<Rightarrow> wait_first loads (relay_turn loads (w\<lparr>inbox := rest\<rparr>))
              | Client ev \<Rightarrow> complete_receive ev (w\<lparr>inbox := rest\<rparr>)
              | Both ev \<Rightarrow> complete_receive ev (relay_turn loads (w\<lparr>inbox := rest\<rparr>)))))"
  by pat_completeness auto
termination
  by (relation "measure (\<lambda>(loads, w). length (inbox w))") auto

declare wait_first.simps [simp del]

text \<open>\<^verbatim>\<open>await dg_ws.send_bytes(data)\<close> (line 99); the relay may run while the call is awaited.\<close>

definition send_bytes :: "(string \<Rightarrow> json option) \<Rightarrow> bytes \<Rightarrow> world \<Rightarrow> unit outcome \<times> world" where
  "send_bytes loads data w =
     (let w1 = emit (SendBytes data) w
      in case byte_sends w1 of
           [] \<Rightarrow> (Returns (), w1)
         | (n, r) # rest \<Rightarrow>
             (case r of None \<Rightarrow> Returns () | Some e \<Rightarrow> Raises e,
              relay_turns loads n (w1\<lparr>byte_sends := rest\<rparr>)))"

lemma send_bytes_inbox: "send_bytes loads data w = (r, w') \<Longrightarrow> inbox w' = inbox w"
  by (auto simp: send_bytes_def Let_def split: list.splits prod.splits)

lemma complete_receive_inbox: "complete_receive ev w = (r, w') \<Longrightarrow> inbox w' = inbox w"
  by (auto simp: complete_receive_def split: sum.splits)

lemma wait_first_inbox:
  "wait_first loads w = (r, w') \<Longrightarrow> length (inbox w') \<le> length (inbox w)"
proof (induction loads w arbitrary: r w' rule: wait_first.induct)
  case (1 loads w)
  show ?case
  proof (cases "receiver_done w")
    case True
    with "1.prems" show ?thesis by (simp add: wait_first.simps)
  next
    case False
    show ?thesis
    proof (cases "inbox w")
      case Nil
      with False "1.prems" show ?thesis by (simp add: wait_first.simps)
    next
      case (Cons a rest)
      show ?thesis
      proof (cases a)
        case (Client ev)
        with False Cons "1.prems" show ?thesis
          by (auto simp: wait_first.simps [of loads w] dest: complete_receive_inbox)
      next
        case Upstream
        with False Cons "1.prems"
        have "wait_first loads (relay_turn loads (w\<lparr>inbox := rest\<rparr>)) = (r, w')"
          by (simp add: wait_first.simps [of loads w])
        from "1.IH" [OF False Cons Upstream this] Cons show ?thesis by simp
      next
        case (Both ev)
        with False Cons "1.prems" show ?thesis
          by (auto simp: wait_first.simps [of loads w] dest: complete_receive_inbox)
      qed
    qed
  qed
qed

lemma wait_first_progress:
  assumes "wait_first loads w = (r, w')" and "\<not> receiver_done w" and "r \<noteq> WaitsForever"
  shows "length (inbox w') < length (inbox w)"
proof (cases "inbox w")
  case Nil
  with assms show ?thesis by (simp add: wait_first.simps [of loads w])
next
  case (Cons a rest)
  show ?thesis
  proof (cases a)
    case (Client ev)
    with assms Cons show ?thesis
      by (auto simp: wait_first.simps [of loads w] dest: complete_receive_inbox)
  next
    case Upstream
    with assms Cons have "wait_first loads (relay_turn loads (w\<lparr>inbox := rest\<rparr>)) = (r, w')"
      by (simp add: wait_first.simps [of loads w])
    from wait_first_inbox [OF this] Cons show ?thesis by simp
  next
    case (Both ev)
    with assms Cons show ?thesis
      by (auto simp: wait_first.simps [of loads w] dest: complete_receive_inbox)
  qed
qed

text \<open>
  The forwarding loop (lines 90 to 102). A task in \<^verbatim>\<open>done\<close> is not in \<^verbatim>\<open>pending\<close>, so
  the two \<^verbatim>\<open>if\<close>s of the body are the cases of the wait's result;
  \<^verbatim>\<open>client_data_task.result()\<close> raises what \<^verbatim>\<open>receive_bytes\<close> raised.
\<close>

function forward_loop :: "(string \<Rightarrow> json option) \<Rightarrow> world \<Rightarrow> unit outcome \<times> world" where
  "forward_loop loads w =
     (if receiver_done w then (Returns (), w)
      else
        (case wait_first loads (emit CreateReceiveBytes w) of
           (WaitsForever, w1) \<Rightarrow> (Waits, w1)
         | (ClientDone (Inl e), w1) \<Rightarrow> (Raises e, w1)
         | (ClientDone (Inr data), w1) \<Rightarrow>
             (case send_bytes loads data w1 of
                (Returns u, w2) \<Rightarrow> forward_loop loads w2
              | (r, w2) \<Rightarrow> (r, w2))
         | (ClientPending, w1) \<Rightarrow> forward_loop loads (emit CancelReceiveBytes w1)))"
  by pat_completeness auto
termination
proof (relation "measure (\<lambda>(loads, w). length (inbox w))", goal_cases)
  case 1
  show ?case by simp
next
  case (2 loads w x1 w1 x2 data r w2 u)
  then show ?case
    using wait_first_progress [of loads "emit CreateReceiveBytes w" "ClientDone (Inr data)" w1]
      send_bytes_inbox [of loads data w1 "Returns u" w2]
    by simp
next
  case (3 loads w x1 w1)
  then show ?case
    using wait_first_progress [of loads "emit CreateReceiveBytes w" ClientPending w1]
    by simp
qed

declare forward_loop.simps [simp del]

text \<open>\<^verbatim>\<open>dg_ws = await aiohttp_session.ws_connect(full_url, headers=headers)\<close> (line 84).\<close>

definition ws_connect :: "world \<Rightarrow> unit outcome \<times> world" where
  "ws_connect w =
     (let w1 = emit WsConnect w
      in case connects w1 of
           [] \<Rightarrow> (Waits, w1)
         | ConnectFails e # rest \<Rightarrow> (Raises e, w1\<lparr>connects := rest\<rparr>)
         | Connected items closed # rest \<Rightarrow>
             (Returns (), w1\<lparr>connects := rest, dg_ws := Some closed, upstream := items\<rparr>))"

text \<open>
  The \<^verbatim>\<open>try\<close> block of one utterance (lines 75 to 102): connect, start the relay task,
  forward.
\<close>

definition session_try :: "(string \<Rightarrow> json option) \<Rightarrow> world \<Rightarrow> unit outcome \<times> world" where
  "session_try loads w =
     (case ws_connect w of
        (Returns u, w1) \<Rightarrow>
          forward_loop loads (emit CreateReceiverTask (w1\<lparr>receiver_task := Some Running\<rparr>))
      | (r, w1) \<Rightarrow> (r, w1))"

text \<open>
  The \<^verbatim>\<open>finally\<close> block of one utterance (lines 104 to 112): three guarded statements
  and a \<^verbatim>\<open>print\<close>, one after the other; an exception of a statement leaves the block.
\<close>

definition receiver_task_cancel :: "world \<Rightarrow> world" where
  "receiver_task_cancel w = emit CancelReceiverTask (w\<lparr>receiver_task := Some Cancelled\<rparr>)"

definition dg_ws_close :: "world \<Rightarrow> unit outcome \<times> world" where
  "dg_ws_close w =
     (let w1 = emit CloseUpstream w
      in case upstream_closes w1 of
           [] \<Rightarrow> (Returns (), w1\<lparr>dg_ws := Some True\<rparr>)
         | None # rest \<Rightarrow> (Returns (), w1\<lparr>upstream_closes := rest, dg_ws := Some True\<rparr>)
         | Some e # rest \<Rightarrow> (Raises e, w1\<lparr>upstream_closes := rest\<rparr>))"

definition aiohttp_session_close :: "world \<Rightarrow> unit outcome \<times> world" where
  "aiohttp_session_close w =
     (let w1 = emit CloseClientSession w
      in case session_closes w1 of
           [] \<Rightarrow> (Returns (), w1\<lparr>aiohttp_session_closed := True\<rparr>)
         | None # rest \<Rightarrow>
             (Returns (), w1\<lparr>session_closes := rest, aiohttp_session_closed := True\<rparr>)
         | Some e # rest \<Rightarrow> (Raises e, w1\<lparr>session_closes := rest\<rparr>))"

definition cleanup :: "world \<Rightarrow> unit outcome \<times> world" where
  "cleanup w =
     (let w1 = (if (case receiver_task w of None \<Rightarrow> False | Some t \<Rightarrow> \<not> task_done t)
                then receiver_task_cancel w else w)
      in case (if (case dg_ws w1 of None \<Rightarrow> False | Some closed \<Rightarrow> \<not> closed)
               then dg_ws_close w1 else (Returns (), w1)) of
           (Returns u, w2) \<Rightarrow>
             (case (if \<not> aiohttp_session_closed w2 then aiohttp_session_close w2
                    else (Returns (), w2)) of
                (Returns u', w3) \<Rightarrow> (Returns (), emit (Print SessionCleanedUp) w3)
              | (r, w3) \<Rightarrow> (r, w3))
         | (r, w2) \<Rightarrow> (r, w2))"

text \<open>
  One utterance (lines 72 to 112): \<^verbatim>\<open>dg_ws = None\<close>, a new \<^verbatim>\<open>ClientSession\<close>, then
  \<^verbatim>\<open>try\<close> and \<^verbatim>\<open>finally\<close>. There is no \<^verbatim>\<open>except\<close> clause: after the clean-up the
  exception of the \<^verbatim>\<open>try\<close> block goes on, unless the clean-up raised one of its own.
\<close>

definition utterance_session :: "(string \<Rightarrow> json option) \<Rightarrow> world \<Rightarrow> unit outcome \<times> world" where
  "utterance_session loads w =
     (case session_try loads
             (emit NewClientSession (w\<lparr>dg_ws := None, aiohttp_session_closed := False\<rparr>)) of
        (Waits, w1) \<Rightarrow> (Waits, w1)
      | (r, w1) \<Rightarrow>
          (case cleanup w1 of
             (Returns u, w2) \<Rightarrow> (r, w2)
           | (r', w2) \<Rightarrow> (r', w2)))"

lemma receive_text_inbox:
  "receive_text loads w = (r, w') \<Longrightarrow>
     length (inbox w') \<le> length (inbox w) \<and> (r \<noteq> Waits \<longrightarrow> length (inbox w') < length (inbox w))"
proof (induction loads w arbitrary: r w' rule: receive_text.induct)
  case (1 loads w)
  show ?case
  proof (cases "inbox w")
    case Nil
    with "1.prems" show ?thesis by (simp add: receive_text.simps [of loads w])
  next
    case (Cons a rest)
    show ?thesis
    proof (cases a)
      case (Client ev)
      with Cons "1.prems" show ?thesis
        by (auto simp: receive_text.simps [of loads w] split: sum.splits)
    next
      case Upstream
      with Cons "1.prems"
      have "receive_text loads (relay_turn loads (w\<lparr>inbox := rest\<rparr>)) = (r, w')"
        by (simp add: receive_text.simps [of loads w])
      from "1.IH" [OF Cons Upstream this] Cons show ?thesis by simp
    next
      case (Both ev)
      with Cons "1.prems" show ?thesis
        by (auto simp: receive_text.simps [of loads w] split: sum.splits)
    qed
  qed
qed

lemma forward_loop_inbox:
  "forward_loop loads w = (r, w') \<Longrightarrow> length (inbox w') \<le> length (inbox w)"
proof (induction loads w arbitrary: r w' rule: forward_loop.induct)
  case (1 loads w)
  show ?case
  proof (cases "receiver_done w")
    case True
    with "1.prems" show ?thesis by (simp add: forward_loop.simps [of loads w])
  next
    case False
    obtain x w1 where x: "wait_first loads (emit CreateReceiveBytes w) = (x, w1)"
      by (cases "wait_first loads (emit CreateReceiveBytes w)")
    from wait_first_inbox [OF x] have w1: "length (inbox w1) \<le> length (inbox w)" by simp
    show ?thesis
    proof (cases x)
      case WaitsForever
      with False x "1.prems" w1 show ?thesis by (simp add: forward_loop.simps [of loads w])
    next
      case ClientPending
      with False x "1.prems" have "forward_loop loads (emit CancelReceiveBytes w1) = (r, w')"
        by (simp add: forward_loop.simps [of loads w])
      from "1.IH"(2) [OF False x [symmetric] ClientPending this] w1 show ?thesis by simp
    next
      case (ClientDone res)
      show ?thesis
      proof (cases res)
        case (Inl e)
        with ClientDone False x "1.prems" w1 show ?thesis
          by (simp add: forward_loop.simps [of loads w])
      next
        case (Inr data)
        obtain r2 w2 where s: "send_bytes loads data w1 = (r2, w2)"
          by (cases "send_bytes loads data w1")
        from send_bytes_inbox [OF s] w1 have w2: "length (inbox w2) \<le> length (inbox w)" by simp
        show ?thesis
        proof (cases r2)
          case (Returns u)
          with Inr ClientDone False x s "1.prems" have "forward_loop loads w2 = (r, w')"
            by (simp add: forward_loop.simps [of loads w])
          from "1.IH"(1) [OF False x [symmetric] ClientDone Inr s [symmetric] Returns this] w2
          show ?thesis by simp
        next
          case (Raises e)
          with Inr ClientDone False x s "1.prems" w2 show ?thesis
            by (simp add: forward_loop.simps [of loads w])
        next
          case Waits
          with Inr ClientDone False x s "1.prems" w2 show ?thesis
            by (simp add: forward_loop.simps [of loads w])
        qed
      qed
    qed
  qed
qed

lemma ws_connect_inbox: "ws_connect w = (r, w') \<Longrightarrow> inbox w' = inbox w"
  by (auto simp: ws_connect_def Let_def emit_def split: list.splits connect_result.splits)

lemma cleanup_inbox: "cleanup w = (r, w') \<Longrightarrow> inbox w' = inbox w"
  by (auto simp: cleanup_def Let_def emit_def receiver_task_cancel_def dg_ws_close_def
      aiohttp_session_close_def
      split: list.splits option.splits if_splits outcome.splits prod.splits)

lemma session_try_inbox:
  "session_try loads w = (r, w') \<Longrightarrow> length (inbox w') \<le> length (inbox w)"
  by (auto simp: session_try_def split: prod.splits outcome.splits
      dest!: ws_connect_inbox forward_loop_inbox)

lemma utterance_session_inbox:
  "utterance_session loads w = (r, w') \<Longrightarrow> length (inbox w') \<le> length (inbox w)"
  by (auto simp: utterance_session_def split: prod.splits outcome.splits
      dest!: session_try_inbox cleanup_inbox)

text \<open>
  The loop of the client (lines 61 to 112): read a text frame, decode it, go on unless
  its action is \<^verbatim>\<open>start_transcription\<close>, run one utterance, again. The loop has no exit
  of its own: it ends by an exception, or it waits for ever.
\<close>

function client_loop :: "(string \<Rightarrow> json option) \<Rightarrow> world \<Rightarrow> unit outcome \<times> world" where
  "client_loop loads w =
     (case receive_text loads (emit ReceiveText w) of
        (Returns message, w1) \<Rightarrow>
          (case loads message of
             None \<Rightarrow> (Raises JSONDecodeError, w1)
           | Some data \<Rightarrow>
               (case py_get data ''action'' JNull of
                  Inl e \<Rightarrow> (Raises e, w1)
                | Inr action \<Rightarrow>
                    if action \<noteq> JStr ''start_transcription'' then client_loop loads w1
                    else
                      (case utterance_session loads (emit (Print StartSignalReceived) w1) of
                         (Returns u, w2) \<Rightarrow> client_loop loads w2
                       | (r, w2) \<Rightarrow> (r, w2))))
      | (Raises e, w1) \<Rightarrow> (Raises e, w1)
      | (Waits, w1) \<Rightarrow> (Waits, w1))"
  by pat_completeness auto
termination
proof (relation "measure (\<lambda>(loads, w). length (inbox w))", goal_cases)
  case 1
  show ?case by simp
next
  case (2 loads w x1 w1 message data action)
  then show ?case
    using receive_text_inbox [of loads "emit ReceiveText w" "Returns message" w1] by simp
next
  case (3 loads w x1 w1 message data action x2 w2 u)
  then show ?case
    using receive_text_inbox [of loads "emit ReceiveText w" "Returns message" w1]
      utterance_session_inbox [of loads "emit (Print StartSignalReceived) w1" "Returns u" w2]
    by simp
qed

declare client_loop.simps [simp del]

text \<open>
  \<^verbatim>\<open>websocket_endpoint\<close> (lines 54 to 119): accept, the loop of the client, and the
  handlers of the outer \<^verbatim>\<open>try\<close>. When the function returns the server closes the
  connection of the client.
\<close>

definition websocket_endpoint :: "(string \<Rightarrow> json option) \<Rightarrow> world \<Rightarrow> unit outcome \<times> world" where
  "websocket_endpoint loads w =
     (case client_loop loads (emit (Print ClientConnected) (emit Accept w)) of
        (Raises e, w1) \<Rightarrow>
          if e = WebSocketDisconnect \<or> e = ConnectionResetError then
            (Returns (), emit (Print ClosingConnection) (emit (Print ClientDisconnected) w1))
          else if is_Exception e then
            (Returns (), emit (Print ClosingConnection) (emit (Print (ErrorOccurred e)) w1))
          else (Raises e, emit (Print ClosingConnection) w1)
      | (Returns u, w1) \<Rightarrow> (Returns u, emit (Print ClosingConnection) w1)
      | (Waits, w1) \<Rightarrow> (Waits, w1))"

section \<open>Reading a trace\<close>

text \<open>
  The functions of this section are not part of the program: they read a trace, or a
  list of outcomes, and state what the specification asks of it.
\<close>

text \<open>The next call on this list of outcomes raises.\<close>

fun raises_next :: "exc option list \<Rightarrow> bool" where
  "raises_next (Some e # rs) = True"
| "raises_next rs = False"

text \<open>The events of the relay task: its sends to the client and its two prints.\<close>

fun relay_event :: "event \<Rightarrow> bool" where
  "relay_event (SendJson p) = True"
| "relay_event (Print DeepgramClosedOrErrored) = True"
| "relay_event (Print (ErrorInReceiverTask e)) = True"
| "relay_event e = False"

text \<open>
  The frames handed to \<^verbatim>\<open>dg_ws.send_bytes\<close>, in order, and the binary frames among what
  has arrived from the client, in order.
\<close>

fun sent_bytes :: "event list \<Rightarrow> bytes list" where
  "sent_bytes [] = []"
| "sent_bytes (SendBytes d # es) = d # sent_bytes es"
| "sent_bytes (e # es) = sent_bytes es"

fun client_bytes :: "arrival list \<Rightarrow> bytes list" where
  "client_bytes [] = []"
| "client_bytes (Client (CBytes d) # as) = d # client_bytes as"
| "client_bytes (Both (CBytes d) # as) = d # client_bytes as"
| "client_bytes (a # as) = client_bytes as"

text \<open>
  The exceptions among the outcomes of the calls of \<^verbatim>\<open>dg_ws.send_bytes\<close>, in order, and
  the exceptions that \<^verbatim>\<open>receive_bytes\<close> raises on what has arrived from the client, in
  order: a text frame has no \<^verbatim>\<open>bytes\<close> key, and a disconnect raises.
\<close>

fun failed_sends :: "(nat \<times> exc option) list \<Rightarrow> exc list" where
  "failed_sends [] = []"
| "failed_sends ((n, Some e) # rs) = e # failed_sends rs"
| "failed_sends ((n, None) # rs) = failed_sends rs"

fun failed_receives :: "arrival list \<Rightarrow> exc list" where
  "failed_receives [] = []"
| "failed_receives (Client ev # as) =
     (case bytes_of ev of Inl e \<Rightarrow> [e] | Inr d \<Rightarrow> []) @ failed_receives as"
| "failed_receives (Both ev # as) =
     (case bytes_of ev of Inl e \<Rightarrow> [e] | Inr d \<Rightarrow> []) @ failed_receives as"
| "failed_receives (Upstream # as) = failed_receives as"

text \<open>
  A checker reads a trace event by event from a state; \<open>None\<close> means that an event came
  in a state that does not allow it.
\<close>

fun run_checker :: "('s \<Rightarrow> event \<Rightarrow> 's option) \<Rightarrow> 's \<Rightarrow> event list \<Rightarrow> 's option" where
  "run_checker step s [] = Some s"
| "run_checker step s (e # es) =
     (case step s e of None \<Rightarrow> None | Some s' \<Rightarrow> run_checker step s' es)"

text \<open>
  The checker of the \<^verbatim>\<open>receive_bytes\<close> tasks. The state says whether such a task is
  pending. A task is created only when none is pending; it ends by its completion or
  by its cancellation, and only a pending task is completed or cancelled; the steps of
  the clean-up come only when no task is pending.
\<close>

fun receive_step :: "bool \<Rightarrow> event \<Rightarrow> bool option" where
  "receive_step pending CreateReceiveBytes = (if pending then None else Some True)"
| "receive_step pending (GotBytes d) = (if pending then Some False else None)"
| "receive_step pending (ReceiveBytesFailed e) = (if pending then Some False else None)"
| "receive_step pending CancelReceiveBytes = (if pending then Some False else None)"
| "receive_step pending CancelReceiverTask = (if pending then None else Some False)"
| "receive_step pending CloseUpstream = (if pending then None else Some False)"
| "receive_step pending CloseClientSession = (if pending then None else Some False)"
| "receive_step pending (Print SessionCleanedUp) = (if pending then None else Some False)"
| "receive_step pending e = Some pending"

text \<open>
  The checker of the sessions. The state says whether a session is active: it becomes
  active at the print that follows a start signal and stops being active at the last
  statement of the clean-up. A text frame is read, and a start signal is taken, only
  while no session is active; everything a session does to the outside, the sends of its
  relay included, comes only while one is active.
\<close>

fun session_step :: "bool \<Rightarrow> event \<Rightarrow> bool option" where
  "session_step active (Print StartSignalReceived) = (if active then None else Some True)"
| "session_step active (Print SessionCleanedUp) = (if active then Some False else None)"
| "session_step active ReceiveText = (if active then None else Some False)"
| "session_step active Accept = Some active"
| "session_step active (Print ClientConnected) = Some active"
| "session_step active (Print ClientDisconnected) = Some active"
| "session_step active (Print (ErrorOccurred e)) = Some active"
| "session_step active (Print ClosingConnection) = Some active"
| "session_step active e = (if active then Some True else None)"

text \<open>
  The client's socket inside a world, the world a step of the relay's loop ends in, and
  a function applied to that world: they relate the turns of the relay task to
  \<^verbatim>\<open>deepgram_to_client_receiver\<close> run on the client's socket alone.
\<close>

definition client_of :: "world \<Rightarrow> client_ws" where
  "client_of w = \<lparr>trace = trace w, json_sends = json_sends w\<rparr>"

fun step_world :: "'w step \<Rightarrow> 'w" where
  "step_world (Continue w) = w"
| "step_world (Break w) = w"
| "step_world (Raised e w) = w"

fun map_step :: "('w \<Rightarrow> 'v) \<Rightarrow> 'w step \<Rightarrow> 'v step" where
  "map_step f (Continue w) = Continue (f w)"
| "map_step f (Break w) = Break (f w)"
| "map_step f (Raised e w) = Raised e (f w)"

section \<open>The published shape of an upstream message\<close>




section \<open>Example inputs\<close>

text \<open>
  The start signal and the two transcript messages of the specification's scenario, as
  text and decoded, and a decoder that knows them, the empty object and the empty
  array; every other text is malformed for it.
\<close>

definition start_text :: string where
  \<open>start_text = ''{"action": "start_transcription"}''\<close>

definition start_json :: json where
  "start_json = JObj [(''action'', JStr ''start_transcription'')]"

definition hello_text :: "bool \<Rightarrow> string" where
  \<open>hello_text final =
     ''{"channel":{"alternatives":[{"transcript":"hello world"}]},"is_final":'' @
     (if final then ''true'' else ''false'') @ ''}''\<close>

definition hello_json :: "bool \<Rightarrow> json" where
  "hello_json final =
     JObj [(''channel'', JObj [(''alternatives'', JArr [JObj [(''transcript'', JStr ''hello world'')]])]),
           (''is_final'', JBool final)]"

definition demo_loads :: "string \<Rightarrow> json option" where
  "demo_loads s =
     (if s = start_text then Some start_json
      else if s = hello_text False then Some (hello_json False)
      else if s = hello_text True then Some (hello_json True)
      else if s = ''{}'' then Some (JObj [])
      else if s = ''[]'' then Some (JArr [])
      else None)"

definition text_msg :: "string \<Rightarrow> ws_msg" where
  "text_msg s = \<lparr>mtype = TEXT, mdata = s\<rparr>"

definition fresh_client :: client_ws where
  "fresh_client = \<lparr>trace = [], json_sends = []\<rparr>"

text \<open>
  The world when \<^verbatim>\<open>websocket_endpoint\<close> is entered, with nothing to arrive, and six
  worlds made from it: the client disconnects in the middle of an utterance; the first
  connect is refused and a second start signal follows; the upstream connection ends
  before any frame of the client; the scenario of the specification (a start
  signal, three binary frames, two transcripts, the end of the upstream connection);
  the send of the second binary frame fails and a second start signal follows; and the
  upstream iteration fails at its second item, after the first binary frame.
\<close>

definition fresh_world :: world where
  "fresh_world =
     \<lparr>trace = [], json_sends = [], inbox = [], connects = [], byte_sends = [],
      upstream_closes = [], session_closes = [], receiver_task = None, upstream = [],
      dg_ws = None, aiohttp_session_closed = False\<rparr>"

definition disconnect_world :: world where
  "disconnect_world =
     fresh_world\<lparr>inbox := [Client CDisconnect], connects := [Connected [] False]\<rparr>"

definition failing_connect_world :: world where
  "failing_connect_world =
     fresh_world\<lparr>inbox := [Client (CText start_text), Client (CText start_text)],
                  connects := [ConnectFails ClientError, Connected [] True]\<rparr>"

definition relay_first_world :: world where
  "relay_first_world = fresh_world\<lparr>inbox := [Upstream], connects := [Connected [] True]\<rparr>"

definition scenario_world :: world where
  "scenario_world =
     fresh_world\<lparr>inbox := [Client (CText start_text), Client (CBytes ''a1''),
                            Client (CBytes ''a2''), Client (CBytes ''a3''),
                            Upstream, Upstream, Upstream],
                  connects := [Connected [Yield (text_msg (hello_text False)),
                                          Yield (text_msg (hello_text True))] True]\<rparr>"

definition second_send_world :: world where
  "second_send_world =
     fresh_world\<lparr>inbox := [Client (CText start_text), Client (CBytes ''a1''),
                            Client (CBytes ''a2''), Client (CText start_text)],
                  connects := [Connected [] False],
                  byte_sends := [(0, None), (0, Some ConnectionResetError)]\<rparr>"

definition late_relay_failure_world :: world where
  "late_relay_failure_world =
     fresh_world\<lparr>inbox := [Client (CText start_text), Client (CBytes ''a1''), Upstream,
                            Both (CBytes ''a2'')],
                  connects := [Connected [Yield (text_msg (hello_text False)),
                                          IterRaise ClientError] True]\<rparr>"

section \<open>Properties of the transcript relay\<close>

lemma hello_text_not_start: "hello_text b \<noteq> start_text"
  by (cases b) (simp_all add: hello_text_def start_text_def)

lemma demo_loads_simps:
  "demo_loads start_text = Some start_json"
  "demo_loads (hello_text b) = Some (hello_json b)"
  "demo_loads ''{}'' = Some (JObj [])"
  "demo_loads ''[]'' = Some (JArr [])"
  "demo_loads ''not json'' = None"
proof -
  show "demo_loads start_text = Some start_json" by (simp add: demo_loads_def)
  have "hello_text True \<noteq> hello_text False" by (simp add: hello_text_def)
  then show "demo_loads (hello_text b) = Some (hello_json b)"
    by (cases b) (auto simp: demo_loads_def hello_text_not_start)
  show "demo_loads ''{}'' = Some (JObj [])" "demo_loads ''[]'' = Some (JArr [])"
    "demo_loads ''not json'' = None"
    by (simp_all add: demo_loads_def hello_text_def start_text_def)
qed

lemma str_strip_hello: "str_strip ''hello world'' = ''hello world''"
  by (simp add: str_strip_def py_isspace_def)

subsection \<open>No exception leaves the relay\<close>









subsection \<open>One notification for each transcript that is not blank\<close>







subsection \<open>Messages with missing keys\<close>



subsection \<open>A malformed message\<close>

text \<open>
  Claim C2, as the code has it. The decoding of a text message stands inside the one
  \<^verbatim>\<open>try\<close> that holds the whole loop, so a malformed payload ends the loop: the relay
  prints the failure and returns, and it reads none of the messages that follow.
\<close>

theorem malformed_message_ends_relay:
  assumes "mtype msg = TEXT" and "loads (mdata msg) = None"
  shows "deepgram_to_client_receiver loads (Yield msg # rest) w =
           (None, emit (Print (ErrorInReceiverTask JSONDecodeError)) w)"
  using assms by (simp add: deepgram_to_client_receiver_def except_Exception_def receiver_body_def)

theorem malformed_message_ends_relay_witness:
  "deepgram_to_client_receiver demo_loads
      [Yield (text_msg ''not json''), Yield (text_msg (hello_text True))] fresh_client =
     (None, emit (Print (ErrorInReceiverTask JSONDecodeError)) fresh_client)"
  using malformed_message_ends_relay [of "text_msg ''not json''" demo_loads
      "[Yield (text_msg (hello_text True))]" fresh_client]
  by (simp add: text_msg_def demo_loads_simps)

text \<open>
  The claim as the specification states it fails: the valid message that follows a
  malformed one gives no notification, where the same message alone gives one.
\<close>

theorem malformed_message_drops_later_messages:
  "sent_json (trace (snd (deepgram_to_client_receiver demo_loads
      [Yield (text_msg ''not json''), Yield (text_msg (hello_text True))] fresh_client))) = [] \<and>
   sent_json (trace (snd (deepgram_to_client_receiver demo_loads
      [Yield (text_msg (hello_text True))] fresh_client))) =
     [stt_transcript (JStr ''hello world'') (JBool True)]"
  by (simp add: deepgram_to_client_receiver_def except_Exception_def receiver_body_def
      text_msg_def fresh_client_def demo_loads_simps hello_json_def get_transcript_def
      str_strip_hello send_json_def emit_def)

section \<open>Properties of the endpoint\<close>

subsection \<open>What the relay task adds to the trace\<close>

lemma trace_emit [simp]: "trace (emit e w) = trace w @ [e]"
  by (simp add: emit_def)

lemma sent_bytes_append: "sent_bytes (es @ fs) = sent_bytes es @ sent_bytes fs"
  by (induction es rule: sent_bytes.induct) auto

lemma client_bytes_append: "client_bytes (xs @ ys) = client_bytes xs @ client_bytes ys"
  by (induction xs rule: client_bytes.induct) auto

lemma run_checker_append:
  "run_checker step s (es @ fs) =
     (case run_checker step s es of None \<Rightarrow> None | Some s' \<Rightarrow> run_checker step s' fs)"
  by (induction es arbitrary: s) (auto split: option.splits)

lemma run_checker_neutral:
  "\<forall>e \<in> set es. step s e = Some s \<Longrightarrow> run_checker step s es = Some s"
  by (induction es) auto

lemma receiver_body_trace:
  "\<exists>es. list_all relay_event es \<and>
     (case receiver_body loads msg w of
        Continue w' \<Rightarrow> trace w' = trace w @ es
      | Break w' \<Rightarrow> trace w' = trace w @ es
      | Raised e w' \<Rightarrow> trace w' = trace w @ es)"
  by (auto simp: receiver_body_def send_json_def emit_def
      split: option.splits sum.splits list.splits prod.splits)

lemma relay_turn_trace:
  "\<exists>es. trace (relay_turn loads w) = trace w @ es \<and> list_all relay_event es"
proof (cases "receiver_task w \<noteq> Some Running")
  case True
  then show ?thesis by (simp add: relay_turn_def)
next
  case False
  show ?thesis
  proof (cases "upstream w")
    case Nil
    with False show ?thesis by (simp add: relay_turn_def relay_ends_def)
  next
    case (Cons item rest)
    show ?thesis
    proof (cases item)
      case (IterRaise e)
      with False Cons show ?thesis
        by (simp add: relay_turn_def relay_ends_def except_Exception_def emit_def)
    next
      case (Yield msg)
      from receiver_body_trace [where loads = loads and msg = msg and w = "w\<lparr>upstream := rest\<rparr>"]
      obtain es where es: "list_all relay_event es"
        "(case receiver_body loads msg (w\<lparr>upstream := rest\<rparr>) of
            Continue w' \<Rightarrow> trace w' = trace (w\<lparr>upstream := rest\<rparr>) @ es
          | Break w' \<Rightarrow> trace w' = trace (w\<lparr>upstream := rest\<rparr>) @ es
          | Raised e w' \<Rightarrow> trace w' = trace (w\<lparr>upstream := rest\<rparr>) @ es)" by blast
      show ?thesis
      proof (cases "receiver_body loads msg (w\<lparr>upstream := rest\<rparr>)")
        case (Continue w')
        with False Cons Yield es show ?thesis by (auto simp: relay_turn_def)
      next
        case (Break w')
        with False Cons Yield es show ?thesis by (auto simp: relay_turn_def relay_ends_def)
      next
        case (Raised e w')
        with False Cons Yield es show ?thesis
          by (auto simp: relay_turn_def relay_ends_def except_Exception_def emit_def)
      qed
    qed
  qed
qed

lemma relay_turns_trace:
  "\<exists>es. trace (relay_turns loads n w) = trace w @ es \<and> list_all relay_event es"
proof (induction n arbitrary: w)
  case 0
  then show ?case by simp
next
  case (Suc n)
  from relay_turn_trace [of loads w] obtain es where
    es: "trace (relay_turn loads w) = trace w @ es" "list_all relay_event es" by blast
  from Suc [of "relay_turn loads w"] obtain fs where
    fs: "trace (relay_turns loads n (relay_turn loads w)) = trace (relay_turn loads w) @ fs"
      "list_all relay_event fs" by blast
  from es fs show ?case by auto
qed

lemma relay_turn_done: "receiver_done w \<Longrightarrow> relay_turn loads w = w"
  by (auto simp: relay_turn_def receiver_done_def split: option.splits)

lemma relay_turn_scripts [simp]:
  "upstream_closes (relay_turn loads w) = upstream_closes w"
  "session_closes (relay_turn loads w) = session_closes w"
  "dg_ws (relay_turn loads w) = dg_ws w"
  "aiohttp_session_closed (relay_turn loads w) = aiohttp_session_closed w"
  by (auto simp: relay_turn_def relay_ends_def except_Exception_def receiver_body_def emit_def
      send_json_def
      split: list.splits ws_item.splits step.splits option.splits sum.splits if_splits prod.splits)

lemma relay_turns_scripts [simp]:
  "upstream_closes (relay_turns loads n w) = upstream_closes w"
  "session_closes (relay_turns loads n w) = session_closes w"
  "dg_ws (relay_turns loads n w) = dg_ws w"
  "aiohttp_session_closed (relay_turns loads n w) = aiohttp_session_closed w"
  by (induction n arbitrary: w) auto

subsection \<open>The turns of the relay task are the relay\<close>

text \<open>
  A relay task that takes one turn for each item of its connection, and one more, has
  done to the client what \<^verbatim>\<open>deepgram_to_client_receiver\<close> does on these items, and has
  finished the way the function ends.
\<close>

lemma receiver_body_client:
  "map_step client_of (receiver_body loads msg w) = receiver_body loads msg (client_of w)"
  by (auto simp: receiver_body_def client_of_def send_json_def emit_def
      split: option.splits sum.splits list.splits)

lemma receiver_body_vars:
  "receiver_task (step_world (receiver_body loads msg w)) = receiver_task w \<and>
   upstream (step_world (receiver_body loads msg w)) = upstream w"
  by (auto simp: receiver_body_def send_json_def emit_def
      split: option.splits sum.splits list.splits)

lemma except_Exception_client:
  "except_Exception (r, client_of w) =
     (fst (except_Exception (r, w)), client_of (snd (except_Exception (r, w))))"
  by (cases r) (auto simp: except_Exception_def client_of_def emit_def)

lemma relay_turns_done: "receiver_done w \<Longrightarrow> relay_turns loads n w = w"
  by (induction n) (auto simp: relay_turn_done)

lemma relay_ends_done [simp]: "receiver_done (relay_ends rw)"
  by (simp add: relay_ends_def receiver_done_def)

lemma relay_ends_client [simp]:
  "client_of (relay_ends rw) = client_of (snd rw)"
  "receiver_task (relay_ends rw) = Some (Finished (fst rw))"
  by (simp_all add: relay_ends_def client_of_def)

lemma relay_turns_run:
  assumes "receiver_task w = Some Running" and "upstream w = items"
  shows "client_of (relay_turns loads (Suc (length items)) w) =
           snd (deepgram_to_client_receiver loads items (client_of w)) \<and>
         receiver_task (relay_turns loads (Suc (length items)) w) =
           Some (Finished (fst (deepgram_to_client_receiver loads items (client_of w))))"
  using assms
proof (induction items arbitrary: w)
  case Nil
  then show ?case
    by (simp add: relay_turn_def deepgram_to_client_receiver_def except_Exception_def)
next
  case (Cons item rest)
  show ?case
  proof (cases item)
    case (IterRaise e)
    with Cons.prems have t: "relay_turn loads w =
        relay_ends (except_Exception (Some e, w\<lparr>upstream := rest\<rparr>))"
      by (simp add: relay_turn_def)
    have c: "client_of (w\<lparr>upstream := rest\<rparr>) = client_of w" by (simp add: client_of_def)
    show ?thesis
      using IterRaise except_Exception_client [of "Some e" "w\<lparr>upstream := rest\<rparr>"]
      by (simp add: t relay_turns_done relay_turn_done deepgram_to_client_receiver_def c)
  next
    case (Yield msg)
    let ?v = "w\<lparr>upstream := rest\<rparr>"
    have c: "client_of ?v = client_of w" by (simp add: client_of_def)
    note b = receiver_body_client [of loads msg ?v, unfolded c]
    note v = receiver_body_vars [of loads msg ?v]
    show ?thesis
    proof (cases "receiver_body loads msg ?v")
      case (Continue w')
      with Cons.prems Yield have t: "relay_turn loads w = w'" by (simp add: relay_turn_def)
      from v Continue Cons.prems have w': "receiver_task w' = Some Running" "upstream w' = rest"
        by simp_all
      from b Continue have "receiver_body loads msg (client_of w) = Continue (client_of w')"
        by simp
      with Cons.IH [OF w'] Yield show ?thesis
        by (simp add: t deepgram_to_client_receiver_def)
    next
      case (Break w')
      with Cons.prems Yield have t: "relay_turn loads w = relay_ends (None, w')"
        by (simp add: relay_turn_def)
      from b Break have "receiver_body loads msg (client_of w) = Break (client_of w')" by simp
      with Yield show ?thesis
        by (simp add: t relay_turns_done relay_turn_done deepgram_to_client_receiver_def
            except_Exception_def)
    next
      case (Raised e w')
      with Cons.prems Yield
      have t: "relay_turn loads w = relay_ends (except_Exception (Some e, w'))"
        by (simp add: relay_turn_def)
      from b Raised have "receiver_body loads msg (client_of w) = Raised e (client_of w')"
        by simp
      with Yield except_Exception_client [of "Some e" w'] show ?thesis
        by (simp add: t relay_turns_done relay_turn_done deepgram_to_client_receiver_def)
    qed
  qed
qed

subsection \<open>Audio frames are forwarded in order\<close>

lemma sent_bytes_relay: "list_all relay_event es \<Longrightarrow> sent_bytes es = []"
  by (induction es rule: sent_bytes.induct) auto

lemma relay_turn_sent_bytes [simp]:
  "sent_bytes (trace (relay_turn loads w)) = sent_bytes (trace w)"
  using relay_turn_trace [of loads w] by (auto simp: sent_bytes_append sent_bytes_relay)

lemma relay_turns_sent_bytes [simp]:
  "sent_bytes (trace (relay_turns loads n w)) = sent_bytes (trace w)"
  using relay_turns_trace [of loads n w] by (auto simp: sent_bytes_append sent_bytes_relay)

lemma complete_receive_frames:
  "complete_receive ev w = (x, w1) \<Longrightarrow>
     inbox w1 = inbox w \<and> sent_bytes (trace w1) = sent_bytes (trace w) \<and>
     client_bytes [Client ev] = (case x of ClientDone (Inr d) \<Rightarrow> [d] | _ \<Rightarrow> []) \<and>
     client_bytes [Both ev] = (case x of ClientDone (Inr d) \<Rightarrow> [d] | _ \<Rightarrow> [])"
  by (cases ev) (auto simp: complete_receive_def emit_def sent_bytes_append)

lemma wait_first_frames:
  "wait_first loads w = (x, w1) \<Longrightarrow>
     \<exists>taken. inbox w = taken @ inbox w1 \<and> sent_bytes (trace w1) = sent_bytes (trace w) \<and>
       client_bytes taken = (case x of ClientDone (Inr d) \<Rightarrow> [d] | _ \<Rightarrow> [])"
proof (induction loads w arbitrary: x w1 rule: wait_first.induct)
  case (1 loads w)
  show ?case
  proof (cases "receiver_done w")
    case True
    with "1.prems" show ?thesis by (simp add: wait_first.simps [of loads w])
  next
    case False
    show ?thesis
    proof (cases "inbox w")
      case Nil
      with False "1.prems" show ?thesis by (simp add: wait_first.simps [of loads w])
    next
      case (Cons a rest)
      show ?thesis
      proof (cases a)
        case (Client ev)
        with False Cons "1.prems" have "complete_receive ev (w\<lparr>inbox := rest\<rparr>) = (x, w1)"
          by (simp add: wait_first.simps [of loads w])
        from complete_receive_frames [OF this] Cons Client show ?thesis
          by (intro exI [of _ "[a]"]) simp
      next
        case Upstream
        with False Cons "1.prems"
        have "wait_first loads (relay_turn loads (w\<lparr>inbox := rest\<rparr>)) = (x, w1)"
          by (simp add: wait_first.simps [of loads w])
        from "1.IH" [OF False Cons Upstream this] obtain taken where
          "rest = taken @ inbox w1" "sent_bytes (trace w1) = sent_bytes (trace w)"
          "client_bytes taken = (case x of ClientDone (Inr d) \<Rightarrow> [d] | _ \<Rightarrow> [])"
          by auto
        with Cons Upstream show ?thesis
          by (intro exI [of _ "Upstream # taken"]) simp
      next
        case (Both ev)
        with False Cons "1.prems"
        have "complete_receive ev (relay_turn loads (w\<lparr>inbox := rest\<rparr>)) = (x, w1)"
          by (simp add: wait_first.simps [of loads w])
        from complete_receive_frames [OF this] Cons Both show ?thesis
          by (intro exI [of _ "[a]"]) simp
      qed
    qed
  qed
qed

lemma send_bytes_frames:
  "send_bytes loads data w = (r, w') \<Longrightarrow>
     inbox w' = inbox w \<and> sent_bytes (trace w') = sent_bytes (trace w) @ [data]"
  by (auto simp: send_bytes_def Let_def sent_bytes_append split: list.splits prod.splits)

lemma forward_loop_frames:
  "forward_loop loads w = (r, w') \<Longrightarrow>
     \<exists>taken. inbox w = taken @ inbox w' \<and>
       sent_bytes (trace w') = sent_bytes (trace w) @ client_bytes taken"
proof (induction loads w arbitrary: r w' rule: forward_loop.induct)
  case (1 loads w)
  show ?case
  proof (cases "receiver_done w")
    case True
    with "1.prems" show ?thesis by (simp add: forward_loop.simps [of loads w])
  next
    case False
    obtain x w1 where x: "wait_first loads (emit CreateReceiveBytes w) = (x, w1)"
      by (cases "wait_first loads (emit CreateReceiveBytes w)")
    from wait_first_frames [OF x] obtain t1 where
      t1: "inbox w = t1 @ inbox w1" "sent_bytes (trace w1) = sent_bytes (trace w)"
        "client_bytes t1 = (case x of ClientDone (Inr d) \<Rightarrow> [d] | _ \<Rightarrow> [])"
      by (auto simp: sent_bytes_append)
    show ?thesis
    proof (cases x)
      case WaitsForever
      with False x "1.prems" t1 show ?thesis
        by (intro exI [of _ t1]) (simp add: forward_loop.simps [of loads w])
    next
      case ClientPending
      with False x "1.prems" have "forward_loop loads (emit CancelReceiveBytes w1) = (r, w')"
        by (simp add: forward_loop.simps [of loads w])
      from "1.IH"(2) [OF False x [symmetric] ClientPending this] obtain t2 where
        "inbox w1 = t2 @ inbox w'" "sent_bytes (trace w') = sent_bytes (trace w1) @ client_bytes t2"
        by (auto simp: sent_bytes_append)
      with t1 ClientPending show ?thesis
        by (intro exI [of _ "t1 @ t2"]) (simp add: client_bytes_append)
    next
      case (ClientDone res)
      show ?thesis
      proof (cases res)
        case (Inl e)
        with ClientDone False x "1.prems" t1 show ?thesis
          by (intro exI [of _ t1]) (simp add: forward_loop.simps [of loads w])
      next
        case (Inr data)
        obtain r2 w2 where s: "send_bytes loads data w1 = (r2, w2)"
          by (cases "send_bytes loads data w1")
        note sf = send_bytes_frames [OF s]
        show ?thesis
        proof (cases r2)
          case (Returns u)
          with Inr ClientDone False x s "1.prems" have "forward_loop loads w2 = (r, w')"
            by (simp add: forward_loop.simps [of loads w])
          from "1.IH"(1) [OF False x [symmetric] ClientDone Inr s [symmetric] Returns this]
          obtain t2 where "inbox w2 = t2 @ inbox w'"
            "sent_bytes (trace w') = sent_bytes (trace w2) @ client_bytes t2" by auto
          with t1 sf ClientDone Inr show ?thesis
            by (intro exI [of _ "t1 @ t2"]) (simp add: client_bytes_append)
        next
          case (Raises e)
          with Inr ClientDone False x s "1.prems" t1 sf show ?thesis
            by (intro exI [of _ t1]) (simp add: forward_loop.simps [of loads w])
        next
          case Waits
          with Inr ClientDone False x s "1.prems" t1 sf show ?thesis
            by (intro exI [of _ t1]) (simp add: forward_loop.simps [of loads w])
        qed
      qed
    qed
  qed
qed

text \<open>
  Claim C7. Whatever arrives while the forwarding loop runs, and however the loop ends,
  the frames handed to \<^verbatim>\<open>dg_ws.send_bytes\<close> during the loop are exactly the binary frames
  among what the loop has taken from the client, in the order of their arrival: none is
  left out, none is handed over twice. What the loop has not taken stays in the inbox.
\<close>

theorem frames_forwarded_in_order:
  "\<exists>taken. inbox w = taken @ inbox (snd (forward_loop loads w)) \<and>
     sent_bytes (trace (snd (forward_loop loads w))) = sent_bytes (trace w) @ client_bytes taken"
  using forward_loop_frames [of loads w "fst (forward_loop loads w)" "snd (forward_loop loads w)"]
  by simp

subsection \<open>The clean-up\<close>

lemma cleanup_trace:
  "trace (snd (cleanup w)) = trace w @
      (if receiver_task w = Some Running then [CancelReceiverTask] else []) @
      (if dg_ws w = Some False then [CloseUpstream] else []) @
      (if dg_ws w = Some False \<and> raises_next (upstream_closes w) then []
       else (if aiohttp_session_closed w then [] else [CloseClientSession]) @
            (if \<not> aiohttp_session_closed w \<and> raises_next (session_closes w) then []
             else [Print SessionCleanedUp]))"
proof -
  have 1: "raises_next rs \<longleftrightarrow> (\<exists>e rest. rs = Some e # rest)" for rs
    by (cases rs rule: raises_next.cases) auto
  show ?thesis
    unfolding cleanup_def Let_def receiver_task_cancel_def dg_ws_close_def
      aiohttp_session_close_def
    by (cases "upstream_closes w" rule: raises_next.cases;
        cases "session_closes w" rule: raises_next.cases;
        cases "dg_ws w"; cases "receiver_task w"; simp add: emit_def;
        (cases "the (receiver_task w)"; simp)?)
qed

lemma cleanup_outcome:
  "fst (cleanup w) = Returns () \<longleftrightarrow>
     \<not> (dg_ws w = Some False \<and> raises_next (upstream_closes w)) \<and>
     \<not> (\<not> aiohttp_session_closed w \<and> raises_next (session_closes w))"
  unfolding cleanup_def Let_def receiver_task_cancel_def dg_ws_close_def
    aiohttp_session_close_def
  by (cases "upstream_closes w" rule: raises_next.cases;
      cases "session_closes w" rule: raises_next.cases;
      cases "dg_ws w"; cases "receiver_task w"; simp add: emit_def;
      (cases "the (receiver_task w)"; simp)?)

lemma dg_ws_close_not_Waits: "fst (dg_ws_close w) \<noteq> Waits"
  by (simp add: dg_ws_close_def Let_def split: list.splits option.splits)

lemma aiohttp_session_close_not_Waits: "fst (aiohttp_session_close w) \<noteq> Waits"
  by (simp add: aiohttp_session_close_def Let_def split: list.splits option.splits)

lemma cleanup_not_Waits: "fst (cleanup w) \<noteq> Waits"
proof -
  define w1 where "w1 = (if (case receiver_task w of None \<Rightarrow> False | Some t \<Rightarrow> \<not> task_done t)
                then receiver_task_cancel w else w)"
  define c1 where "c1 = (if (case dg_ws w1 of None \<Rightarrow> False | Some closed \<Rightarrow> \<not> closed)
               then dg_ws_close w1 else (Returns (), w1))"
  have c1: "fst c1 \<noteq> Waits" using dg_ws_close_not_Waits [of w1] by (simp add: c1_def)
  have c: "cleanup w = (case c1 of
           (Returns u, w2) \<Rightarrow>
             (case (if \<not> aiohttp_session_closed w2 then aiohttp_session_close w2
                    else (Returns (), w2)) of
                (Returns u', w3) \<Rightarrow> (Returns (), emit (Print SessionCleanedUp) w3)
              | (r, w3) \<Rightarrow> (r, w3))
         | (r, w2) \<Rightarrow> (r, w2))"
    by (simp add: cleanup_def c1_def w1_def)
  obtain r1 w2 where r1: "c1 = (r1, w2)" by (cases c1)
  show ?thesis
  proof (cases r1)
    case (Returns u)
    with r1 c aiohttp_session_close_not_Waits [of w2] show ?thesis
      by (cases "aiohttp_session_close w2") (auto split: outcome.splits)
  next
    case (Raises e)
    with r1 c show ?thesis by simp
  next
    case Waits
    with r1 c1 show ?thesis by simp
  qed
qed

lemma cleanup_unfold:
  "cleanup w =
     (case (if (case dg_ws (if (case receiver_task w of None \<Rightarrow> False | Some t \<Rightarrow> \<not> task_done t)
                            then receiver_task_cancel w else w) of
                  None \<Rightarrow> False | Some closed \<Rightarrow> \<not> closed)
            then dg_ws_close (if (case receiver_task w of None \<Rightarrow> False | Some t \<Rightarrow> \<not> task_done t)
                              then receiver_task_cancel w else w)
            else (Returns (), if (case receiver_task w of None \<Rightarrow> False | Some t \<Rightarrow> \<not> task_done t)
                              then receiver_task_cancel w else w)) of
        (Returns u, w2) \<Rightarrow>
          (case (if \<not> aiohttp_session_closed w2 then aiohttp_session_close w2
                 else (Returns (), w2)) of
             (Returns u', w3) \<Rightarrow> (Returns (), emit (Print SessionCleanedUp) w3)
           | (r, w3) \<Rightarrow> (r, w3))
      | (r, w2) \<Rightarrow> (r, w2))"
  by (simp add: cleanup_def Let_def)

lemma cleanup_receiver_done: "receiver_done (snd (cleanup w))"
proof -
  define w1 where "w1 = (if (case receiver_task w of None \<Rightarrow> False | Some t \<Rightarrow> \<not> task_done t)
                then receiver_task_cancel w else w)"
  have d: "receiver_done w1"
    by (auto simp: w1_def receiver_done_def receiver_task_cancel_def emit_def split: option.splits)
  have k1: "receiver_done (snd (dg_ws_close v))" if "receiver_done v" for v
    using that by (auto simp: dg_ws_close_def Let_def receiver_done_def emit_def
        split: list.splits option.splits)
  have k2: "receiver_done (snd (aiohttp_session_close v))" if "receiver_done v" for v
    using that by (auto simp: aiohttp_session_close_def Let_def receiver_done_def emit_def
        split: list.splits option.splits)
  define c1 where "c1 = (if (case dg_ws w1 of None \<Rightarrow> False | Some closed \<Rightarrow> \<not> closed)
               then dg_ws_close w1 else (Returns (), w1))"
  have c1: "receiver_done (snd c1)" using d k1 [of w1] by (simp add: c1_def)
  have c: "cleanup w = (case c1 of
           (Returns u, w2) \<Rightarrow>
             (case (if \<not> aiohttp_session_closed w2 then aiohttp_session_close w2
                    else (Returns (), w2)) of
                (Returns u', w3) \<Rightarrow> (Returns (), emit (Print SessionCleanedUp) w3)
              | (r, w3) \<Rightarrow> (r, w3))
         | (r, w2) \<Rightarrow> (r, w2))"
    unfolding cleanup_unfold c1_def w1_def ..
  obtain r1 w2 where r1: "c1 = (r1, w2)" by (cases c1)
  with c1 have w2: "receiver_done w2" by simp
  show ?thesis
  proof (cases r1)
    case (Returns u)
    obtain r3 w3 where r3: "(if \<not> aiohttp_session_closed w2 then aiohttp_session_close w2
                    else (Returns (), w2)) = (r3, w3)"
      by (cases "(if \<not> aiohttp_session_closed w2 then aiohttp_session_close w2
                    else (Returns (), w2))")
    then have "receiver_done w3" using w2 k2 [of w2] by (auto split: if_splits)
    with r1 c Returns r3 show ?thesis by (cases r3) auto
  next
    case (Raises e)
    with r1 c w2 show ?thesis by simp
  next
    case Waits
    with r1 c w2 show ?thesis by simp
  qed
qed

lemma cleanup_inbox_snd [simp]: "inbox (snd (cleanup w)) = inbox w"
  using cleanup_inbox [of w "fst (cleanup w)" "snd (cleanup w)"] by simp

lemma finally_cleanup:
  assumes "session_try loads (emit NewClientSession (w\<lparr>dg_ws := None, aiohttp_session_closed := False\<rparr>))
             = (r, w1)"
      and "r \<noteq> Waits"
  shows "utterance_session loads w =
           (if fst (cleanup w1) = Returns () then r else fst (cleanup w1), snd (cleanup w1))"
  using assms cleanup_not_Waits [of w1]
  by (cases r; cases "cleanup w1"; cases "fst (cleanup w1)"; auto simp: utterance_session_def)

lemma disconnect_session_try:
  "session_try loads (emit NewClientSession
      (disconnect_world\<lparr>upstream_closes := cl, dg_ws := None, aiohttp_session_closed := False\<rparr>)) =
   (Raises WebSocketDisconnect,
    fresh_world\<lparr>trace := [NewClientSession, WsConnect, CreateReceiverTask, CreateReceiveBytes,
                          ReceiveBytesFailed WebSocketDisconnect],
      upstream_closes := cl, receiver_task := Some Running, dg_ws := Some False\<rparr>)"
  by (simp add: session_try_def ws_connect_def disconnect_world_def fresh_world_def emit_def
      forward_loop.simps wait_first.simps receiver_done_def complete_receive_def Let_def)

text \<open>
  Claim C3, as the code has it. Whenever the \<^verbatim>\<open>try\<close> block of an utterance is left, by
  return or by exception, the clean-up runs: the relay task is cancelled if it is
  running, then the upstream connection is closed if there is one and it is open, then
  the aiohttp session is closed if it is open, then the last line is printed. Each step
  is guarded by the state of its own object only, but the steps stand one after the
  other in one block: when closing the upstream connection raises, the aiohttp session
  is not closed and the line is not printed; when closing the aiohttp session raises,
  the line is not printed.
\<close>

theorem cleanup_after_every_exit:
  assumes "session_try loads
             (emit NewClientSession (w\<lparr>dg_ws := None, aiohttp_session_closed := False\<rparr>)) = (r, w1)"
      and "r \<noteq> Waits"
  shows "trace (snd (utterance_session loads w)) = trace w1 @
      (if receiver_task w1 = Some Running then [CancelReceiverTask] else []) @
      (if dg_ws w1 = Some False then [CloseUpstream] else []) @
      (if dg_ws w1 = Some False \<and> raises_next (upstream_closes w1) then []
       else (if aiohttp_session_closed w1 then [] else [CloseClientSession]) @
            (if \<not> aiohttp_session_closed w1 \<and> raises_next (session_closes w1) then []
             else [Print SessionCleanedUp]))"
  using finally_cleanup [OF assms] by (simp add: cleanup_trace)

theorem cleanup_after_every_exit_witness:
  "trace (snd (utterance_session demo_loads disconnect_world)) =
     [NewClientSession, WsConnect, CreateReceiverTask, CreateReceiveBytes,
      ReceiveBytesFailed WebSocketDisconnect,
      CancelReceiverTask, CloseUpstream, CloseClientSession, Print SessionCleanedUp]"
  using cleanup_after_every_exit [OF disconnect_session_try [of demo_loads "[]", simplified]]
  by (simp add: disconnect_world_def fresh_world_def)

text \<open>
  The claim as the specification states it fails: the client disconnects in the middle
  of an utterance and the close of the upstream connection raises; the aiohttp session
  is left open.
\<close>

theorem failed_close_skips_session_close:
  "utterance_session demo_loads (disconnect_world\<lparr>upstream_closes := [Some ClientError]\<rparr>) =
     (Raises ClientError,
      fresh_world\<lparr>trace := [NewClientSession, WsConnect, CreateReceiverTask, CreateReceiveBytes,
                            ReceiveBytesFailed WebSocketDisconnect, CancelReceiverTask, CloseUpstream],
        receiver_task := Some Cancelled, dg_ws := Some False, aiohttp_session_closed := False\<rparr>)"
  unfolding utterance_session_def disconnect_session_try
  by (simp add: cleanup_def Let_def fresh_world_def receiver_task_cancel_def dg_ws_close_def
      emit_def)

subsection \<open>No receive task is left pending\<close>

lemma receive_step_relay: "relay_event e \<Longrightarrow> receive_step p e = Some p"
  by (cases e rule: relay_event.cases) auto

lemma receive_run_relay:
  "list_all relay_event es \<Longrightarrow> run_checker receive_step p es = Some p"
  by (rule run_checker_neutral) (auto simp: list_all_iff receive_step_relay)

lemma relay_turn_receive:
  "run_checker receive_step False (trace w) = Some p \<Longrightarrow>
     run_checker receive_step False (trace (relay_turn loads w)) = Some p"
  using relay_turn_trace [of loads w] by (auto simp: run_checker_append receive_run_relay)

lemma relay_turns_receive:
  "run_checker receive_step False (trace w) = Some p \<Longrightarrow>
     run_checker receive_step False (trace (relay_turns loads n w)) = Some p"
  using relay_turns_trace [of loads n w] by (auto simp: run_checker_append receive_run_relay)

lemma complete_receive_receive:
  "complete_receive ev w = (x, w1) \<Longrightarrow> run_checker receive_step False (trace w) = Some True \<Longrightarrow>
     run_checker receive_step False (trace w1) = Some False \<and> (\<exists>res. x = ClientDone res)"
  by (auto simp: complete_receive_def run_checker_append split: sum.splits)

lemma wait_first_receive:
  "wait_first loads w = (x, w1) \<Longrightarrow> run_checker receive_step False (trace w) = Some True \<Longrightarrow>
     run_checker receive_step False (trace w1) = Some (\<forall>res. x \<noteq> ClientDone res)"
proof (induction loads w arbitrary: x w1 rule: wait_first.induct)
  case (1 loads w)
  show ?case
  proof (cases "receiver_done w")
    case True
    with "1.prems" show ?thesis by (auto simp: wait_first.simps [of loads w])
  next
    case False
    show ?thesis
    proof (cases "inbox w")
      case Nil
      with False "1.prems" show ?thesis by (auto simp: wait_first.simps [of loads w])
    next
      case (Cons a rest)
      have t: "run_checker receive_step False (trace (w\<lparr>inbox := rest\<rparr>)) = Some True"
        using "1.prems"(2) by simp
      show ?thesis
      proof (cases a)
        case (Client ev)
        with False Cons "1.prems" have "complete_receive ev (w\<lparr>inbox := rest\<rparr>) = (x, w1)"
          by (simp add: wait_first.simps [of loads w])
        from complete_receive_receive [OF this t] show ?thesis by auto
      next
        case Upstream
        with False Cons "1.prems"
        have "wait_first loads (relay_turn loads (w\<lparr>inbox := rest\<rparr>)) = (x, w1)"
          by (simp add: wait_first.simps [of loads w])
        from "1.IH" [OF False Cons Upstream this relay_turn_receive [OF t]] show ?thesis .
      next
        case (Both ev)
        with False Cons "1.prems"
        have "complete_receive ev (relay_turn loads (w\<lparr>inbox := rest\<rparr>)) = (x, w1)"
          by (simp add: wait_first.simps [of loads w])
        from complete_receive_receive [OF this relay_turn_receive [OF t]] show ?thesis by auto
      qed
    qed
  qed
qed

lemma send_bytes_receive:
  "send_bytes loads data w = (r, w') \<Longrightarrow> run_checker receive_step False (trace w) = Some p \<Longrightarrow>
     run_checker receive_step False (trace w') = Some p"
proof -
  assume a: "send_bytes loads data w = (r, w')" "run_checker receive_step False (trace w) = Some p"
  then have e: "run_checker receive_step False (trace (emit (SendBytes data) w)) = Some p"
    by (simp add: run_checker_append)
  show ?thesis
  proof (cases "byte_sends w")
    case Nil
    with a e show ?thesis by (auto simp: send_bytes_def Let_def emit_def)
  next
    case (Cons nr rest)
    obtain n r0 where nr: "nr = (n, r0)" by (cases nr)
    have "run_checker receive_step False
            (trace (relay_turns loads n ((emit (SendBytes data) w)\<lparr>byte_sends := rest\<rparr>))) = Some p"
      using e by (intro relay_turns_receive) simp
    with a Cons nr show ?thesis by (auto simp: send_bytes_def Let_def emit_def)
  qed
qed

lemma forward_loop_receive:
  "forward_loop loads w = (r, w') \<Longrightarrow> run_checker receive_step False (trace w) = Some False \<Longrightarrow>
     run_checker receive_step False (trace w') = Some (r = Waits)"
proof (induction loads w arbitrary: r w' rule: forward_loop.induct)
  case (1 loads w)
  show ?case
  proof (cases "receiver_done w")
    case True
    with "1.prems" show ?thesis by (auto simp: forward_loop.simps [of loads w])
  next
    case False
    obtain x w1 where x: "wait_first loads (emit CreateReceiveBytes w) = (x, w1)"
      by (cases "wait_first loads (emit CreateReceiveBytes w)")
    have "run_checker receive_step False (trace (emit CreateReceiveBytes w)) = Some True"
      using "1.prems"(2) by (simp add: run_checker_append)
    from wait_first_receive [OF x this]
    have w1: "run_checker receive_step False (trace w1) = Some (\<forall>res. x \<noteq> ClientDone res)" .
    show ?thesis
    proof (cases x)
      case WaitsForever
      with False x "1.prems" w1 show ?thesis by (auto simp: forward_loop.simps [of loads w])
    next
      case ClientPending
      with False x "1.prems" have f: "forward_loop loads (emit CancelReceiveBytes w1) = (r, w')"
        by (simp add: forward_loop.simps [of loads w])
      have "run_checker receive_step False (trace (emit CancelReceiveBytes w1)) = Some False"
        using w1 ClientPending by (simp add: run_checker_append)
      from "1.IH"(2) [OF False x [symmetric] ClientPending f this] show ?thesis .
    next
      case (ClientDone res)
      with w1 have w1': "run_checker receive_step False (trace w1) = Some False" by simp
      show ?thesis
      proof (cases res)
        case (Inl e)
        with ClientDone False x "1.prems" w1' show ?thesis
          by (auto simp: forward_loop.simps [of loads w])
      next
        case (Inr data)
        obtain r2 w2 where s: "send_bytes loads data w1 = (r2, w2)"
          by (cases "send_bytes loads data w1")
        note w2 = send_bytes_receive [OF s w1']
        have r2: "r2 \<noteq> Waits" using s
          by (auto simp: send_bytes_def Let_def split: list.splits option.splits)
        show ?thesis
        proof (cases r2)
          case (Returns u)
          with Inr ClientDone False x s "1.prems" have "forward_loop loads w2 = (r, w')"
            by (simp add: forward_loop.simps [of loads w])
          from "1.IH"(1) [OF False x [symmetric] ClientDone Inr s [symmetric] Returns this w2]
          show ?thesis .
        next
          case (Raises e)
          with Inr ClientDone False x s "1.prems" w2 show ?thesis
            by (auto simp: forward_loop.simps [of loads w])
        next
          case Waits
          with r2 show ?thesis by simp
        qed
      qed
    qed
  qed
qed

lemma cleanup_events:
  "\<exists>es. trace (snd (cleanup w)) = trace w @ es \<and>
     set es \<subseteq> {CancelReceiverTask, CloseUpstream, CloseClientSession, Print SessionCleanedUp}"
proof (intro exI conjI)
  show "trace (snd (cleanup w)) = trace w @
      ((if receiver_task w = Some Running then [CancelReceiverTask] else []) @
      (if dg_ws w = Some False then [CloseUpstream] else []) @
      (if dg_ws w = Some False \<and> raises_next (upstream_closes w) then []
       else (if aiohttp_session_closed w then [] else [CloseClientSession]) @
            (if \<not> aiohttp_session_closed w \<and> raises_next (session_closes w) then []
             else [Print SessionCleanedUp])))"
    by (simp add: cleanup_trace)
  show "set ((if receiver_task w = Some Running then [CancelReceiverTask] else []) @
      (if dg_ws w = Some False then [CloseUpstream] else []) @
      (if dg_ws w = Some False \<and> raises_next (upstream_closes w) then []
       else (if aiohttp_session_closed w then [] else [CloseClientSession]) @
            (if \<not> aiohttp_session_closed w \<and> raises_next (session_closes w) then []
             else [Print SessionCleanedUp])))
     \<subseteq> {CancelReceiverTask, CloseUpstream, CloseClientSession, Print SessionCleanedUp}"
    by auto
qed

lemma cleanup_receive:
  assumes "run_checker receive_step False (trace w) = Some False"
  shows "run_checker receive_step False (trace (snd (cleanup w))) = Some False"
proof -
  from cleanup_events [of w] obtain es where
    es: "trace (snd (cleanup w)) = trace w @ es"
      "set es \<subseteq> {CancelReceiverTask, CloseUpstream, CloseClientSession, Print SessionCleanedUp}"
    by blast
  have "run_checker receive_step False es = Some False"
    using es(2) by (intro run_checker_neutral) auto
  with assms es(1) show ?thesis by (simp add: run_checker_append)
qed

lemma session_try_receive:
  assumes "session_try loads w = (r, w')" "run_checker receive_step False (trace w) = Some False"
  shows "\<exists>p. run_checker receive_step False (trace w') = Some p \<and> (r \<noteq> Waits \<longrightarrow> \<not> p)"
proof -
  obtain r1 w1 where c: "ws_connect w = (r1, w1)" by (cases "ws_connect w")
  then have t1: "trace w1 = trace w @ [WsConnect]"
    by (auto simp: ws_connect_def Let_def emit_def split: list.splits connect_result.splits)
  then have w1: "run_checker receive_step False (trace w1) = Some False"
    using assms(2) by (simp add: run_checker_append)
  show ?thesis
  proof (cases r1)
    case (Returns u)
    with c assms(1) have f:
      "forward_loop loads (emit CreateReceiverTask (w1\<lparr>receiver_task := Some Running\<rparr>)) = (r, w')"
      by (simp add: session_try_def)
    have "run_checker receive_step False
            (trace (emit CreateReceiverTask (w1\<lparr>receiver_task := Some Running\<rparr>))) = Some False"
      using w1 by (simp add: run_checker_append)
    from forward_loop_receive [OF f this] show ?thesis by auto
  next
    case (Raises e)
    with c assms(1) w1 show ?thesis by (auto simp: session_try_def)
  next
    case Waits
    with c assms(1) w1 show ?thesis by (auto simp: session_try_def)
  qed
qed

lemma relay_first_session:
  "utterance_session loads relay_first_world =
     (Returns (),
      fresh_world\<lparr>receiver_task := Some (Finished None), dg_ws := Some True,
        aiohttp_session_closed := True,
        trace := [NewClientSession, WsConnect, CreateReceiverTask, CreateReceiveBytes,
                  CancelReceiveBytes, CloseClientSession, Print SessionCleanedUp]\<rparr>)"
  by (simp add: relay_first_world_def fresh_world_def emit_def
      utterance_session_def session_try_def ws_connect_def cleanup_def Let_def
      aiohttp_session_close_def forward_loop.simps wait_first.simps receiver_done_def
      relay_turn_def relay_ends_def)

text \<open>
  Claim C8. In the trace of an utterance the checker of the \<^verbatim>\<open>receive_bytes\<close> tasks never
  fails: a task is cancelled only while it is pending (the cancel stands under
  \<^verbatim>\<open>if client_data_task in pending\<close>, so a completed task is never cancelled), and the
  steps of the clean-up come only when no task is pending, so the task that is pending
  when the relay ends has been cancelled before them. When the utterance ends, by
  return or by exception, no task is pending.
\<close>

theorem no_receive_left_pending:
  assumes "run_checker receive_step False (trace w) = Some False"
  shows "\<exists>p. run_checker receive_step False (trace (snd (utterance_session loads w))) = Some p \<and>
           (fst (utterance_session loads w) \<noteq> Waits \<longrightarrow> \<not> p)"
proof -
  let ?w0 = "emit NewClientSession (w\<lparr>dg_ws := None, aiohttp_session_closed := False\<rparr>)"
  obtain r1 w1 where s: "session_try loads ?w0 = (r1, w1)" by (cases "session_try loads ?w0")
  have "run_checker receive_step False (trace ?w0) = Some False"
    using assms by (simp add: run_checker_append)
  from session_try_receive [OF s this] obtain p where
    p: "run_checker receive_step False (trace w1) = Some p" "r1 \<noteq> Waits \<longrightarrow> \<not> p" by blast
  show ?thesis
  proof (cases "r1 = Waits")
    case True
    with s p show ?thesis by (simp add: utterance_session_def)
  next
    case False
    with p have "run_checker receive_step False (trace w1) = Some False" by simp
    from cleanup_receive [OF this] have
      c: "run_checker receive_step False (trace (snd (cleanup w1))) = Some False" .
    obtain r2 w2 where c2: "cleanup w1 = (r2, w2)" by (cases "cleanup w1")
    with c cleanup_not_Waits [of w1] False s show ?thesis
      by (cases r1; cases r2; auto simp: utterance_session_def)
  qed
qed

theorem no_receive_left_pending_witness:
  "run_checker receive_step False
     (trace (snd (utterance_session demo_loads relay_first_world))) = Some False"
  using no_receive_left_pending [of relay_first_world demo_loads]
  by (simp add: relay_first_session)

subsection \<open>One session at a time\<close>

lemma session_step_active:
  "e \<noteq> Print StartSignalReceived \<Longrightarrow> e \<noteq> Print SessionCleanedUp \<Longrightarrow> e \<noteq> ReceiveText \<Longrightarrow>
     session_step True e = Some True"
  by (cases "(True, e)" rule: session_step.cases) auto

lemma session_run_relay:
  "list_all relay_event es \<Longrightarrow> run_checker session_step True es = Some True"
  by (rule run_checker_neutral) (auto simp: list_all_iff intro!: session_step_active)

lemma relay_turn_session:
  "run_checker session_step False (trace w) = Some True \<Longrightarrow>
     run_checker session_step False (trace (relay_turn loads w)) = Some True"
  using relay_turn_trace [of loads w] by (auto simp: run_checker_append session_run_relay)

lemma relay_turns_session:
  "run_checker session_step False (trace w) = Some True \<Longrightarrow>
     run_checker session_step False (trace (relay_turns loads n w)) = Some True"
  using relay_turns_trace [of loads n w] by (auto simp: run_checker_append session_run_relay)

lemma receive_text_idle:
  "receive_text loads w = (r, w') \<Longrightarrow> receiver_done w \<Longrightarrow>
     trace w' = trace w \<and> receiver_done w'"
proof (induction loads w arbitrary: r w' rule: receive_text.induct)
  case (1 loads w)
  show ?case
  proof (cases "inbox w")
    case Nil
    with "1.prems" show ?thesis by (simp add: receive_text.simps [of loads w])
  next
    case (Cons a rest)
    have d: "receiver_done (w\<lparr>inbox := rest\<rparr>)" using "1.prems"(2) by (simp add: receiver_done_def)
    show ?thesis
    proof (cases a)
      case (Client ev)
      with Cons "1.prems" d show ?thesis
        by (auto simp: receive_text.simps [of loads w])
    next
      case Upstream
      with Cons "1.prems"
      have "receive_text loads (relay_turn loads (w\<lparr>inbox := rest\<rparr>)) = (r, w')"
        by (simp add: receive_text.simps [of loads w])
      from "1.IH" [OF Cons Upstream this] d show ?thesis by (simp add: relay_turn_done)
    next
      case (Both ev)
      with Cons "1.prems" d show ?thesis
        by (auto simp: receive_text.simps [of loads w] relay_turn_done)
    qed
  qed
qed

lemma complete_receive_session:
  "complete_receive ev w = (x, w1) \<Longrightarrow> run_checker session_step False (trace w) = Some True \<Longrightarrow>
     run_checker session_step False (trace w1) = Some True"
  by (auto simp: complete_receive_def run_checker_append split: sum.splits)

lemma wait_first_session:
  "wait_first loads w = (x, w1) \<Longrightarrow> run_checker session_step False (trace w) = Some True \<Longrightarrow>
     run_checker session_step False (trace w1) = Some True"
proof (induction loads w arbitrary: x w1 rule: wait_first.induct)
  case (1 loads w)
  show ?case
  proof (cases "receiver_done w")
    case True
    with "1.prems" show ?thesis by (auto simp: wait_first.simps [of loads w])
  next
    case False
    show ?thesis
    proof (cases "inbox w")
      case Nil
      with False "1.prems" show ?thesis by (auto simp: wait_first.simps [of loads w])
    next
      case (Cons a rest)
      have t: "run_checker session_step False (trace (w\<lparr>inbox := rest\<rparr>)) = Some True"
        using "1.prems"(2) by simp
      show ?thesis
      proof (cases a)
        case (Client ev)
        with False Cons "1.prems" have "complete_receive ev (w\<lparr>inbox := rest\<rparr>) = (x, w1)"
          by (simp add: wait_first.simps [of loads w])
        from complete_receive_session [OF this t] show ?thesis .
      next
        case Upstream
        with False Cons "1.prems"
        have "wait_first loads (relay_turn loads (w\<lparr>inbox := rest\<rparr>)) = (x, w1)"
          by (simp add: wait_first.simps [of loads w])
        from "1.IH" [OF False Cons Upstream this relay_turn_session [OF t]] show ?thesis .
      next
        case (Both ev)
        with False Cons "1.prems"
        have "complete_receive ev (relay_turn loads (w\<lparr>inbox := rest\<rparr>)) = (x, w1)"
          by (simp add: wait_first.simps [of loads w])
        from complete_receive_session [OF this relay_turn_session [OF t]] show ?thesis .
      qed
    qed
  qed
qed

lemma send_bytes_session:
  assumes "send_bytes loads data w = (r, w')"
      and "run_checker session_step False (trace w) = Some True"
  shows "run_checker session_step False (trace w') = Some True"
proof -
  have e: "run_checker session_step False (trace (emit (SendBytes data) w)) = Some True"
    using assms(2) by (simp add: run_checker_append)
  show ?thesis
  proof (cases "byte_sends w")
    case Nil
    with assms(1) e show ?thesis by (auto simp: send_bytes_def Let_def emit_def)
  next
    case (Cons nr rest)
    obtain n r0 where nr: "nr = (n, r0)" by (cases nr)
    have "run_checker session_step False
            (trace (relay_turns loads n ((emit (SendBytes data) w)\<lparr>byte_sends := rest\<rparr>))) = Some True"
      using e by (intro relay_turns_session) simp
    with assms(1) Cons nr show ?thesis by (auto simp: send_bytes_def Let_def emit_def)
  qed
qed

lemma forward_loop_session:
  "forward_loop loads w = (r, w') \<Longrightarrow> run_checker session_step False (trace w) = Some True \<Longrightarrow>
     run_checker session_step False (trace w') = Some True"
proof (induction loads w arbitrary: r w' rule: forward_loop.induct)
  case (1 loads w)
  show ?case
  proof (cases "receiver_done w")
    case True
    with "1.prems" show ?thesis by (auto simp: forward_loop.simps [of loads w])
  next
    case False
    obtain x w1 where x: "wait_first loads (emit CreateReceiveBytes w) = (x, w1)"
      by (cases "wait_first loads (emit CreateReceiveBytes w)")
    have "run_checker session_step False (trace (emit CreateReceiveBytes w)) = Some True"
      using "1.prems"(2) by (simp add: run_checker_append)
    from wait_first_session [OF x this]
    have w1: "run_checker session_step False (trace w1) = Some True" .
    show ?thesis
    proof (cases x)
      case WaitsForever
      with False x "1.prems" w1 show ?thesis by (auto simp: forward_loop.simps [of loads w])
    next
      case ClientPending
      with False x "1.prems" have f: "forward_loop loads (emit CancelReceiveBytes w1) = (r, w')"
        by (simp add: forward_loop.simps [of loads w])
      have "run_checker session_step False (trace (emit CancelReceiveBytes w1)) = Some True"
        using w1 by (simp add: run_checker_append)
      from "1.IH"(2) [OF False x [symmetric] ClientPending f this] show ?thesis .
    next
      case (ClientDone res)
      show ?thesis
      proof (cases res)
        case (Inl e)
        with ClientDone False x "1.prems" w1 show ?thesis
          by (auto simp: forward_loop.simps [of loads w])
      next
        case (Inr data)
        obtain r2 w2 where s: "send_bytes loads data w1 = (r2, w2)"
          by (cases "send_bytes loads data w1")
        note w2 = send_bytes_session [OF s w1]
        show ?thesis
        proof (cases r2)
          case (Returns u)
          with Inr ClientDone False x s "1.prems" have "forward_loop loads w2 = (r, w')"
            by (simp add: forward_loop.simps [of loads w])
          from "1.IH"(1) [OF False x [symmetric] ClientDone Inr s [symmetric] Returns this w2]
          show ?thesis .
        next
          case (Raises e)
          with Inr ClientDone False x s "1.prems" w2 show ?thesis
            by (auto simp: forward_loop.simps [of loads w])
        next
          case Waits
          with Inr ClientDone False x s "1.prems" w2 show ?thesis
            by (auto simp: forward_loop.simps [of loads w])
        qed
      qed
    qed
  qed
qed

lemma session_try_session:
  assumes "session_try loads w = (r, w')"
      and "run_checker session_step False (trace w) = Some True"
  shows "run_checker session_step False (trace w') = Some True"
proof -
  obtain r1 w1 where c: "ws_connect w = (r1, w1)" by (cases "ws_connect w")
  then have t1: "trace w1 = trace w @ [WsConnect]"
    by (auto simp: ws_connect_def Let_def emit_def split: list.splits connect_result.splits)
  then have w1: "run_checker session_step False (trace w1) = Some True"
    using assms(2) by (simp add: run_checker_append)
  show ?thesis
  proof (cases r1)
    case (Returns u)
    with c assms(1) have f:
      "forward_loop loads (emit CreateReceiverTask (w1\<lparr>receiver_task := Some Running\<rparr>)) = (r, w')"
      by (simp add: session_try_def)
    have "run_checker session_step False
            (trace (emit CreateReceiverTask (w1\<lparr>receiver_task := Some Running\<rparr>))) = Some True"
      using w1 by (simp add: run_checker_append)
    from forward_loop_session [OF f this] show ?thesis .
  next
    case (Raises e)
    with c assms(1) w1 show ?thesis by (auto simp: session_try_def)
  next
    case Waits
    with c assms(1) w1 show ?thesis by (auto simp: session_try_def)
  qed
qed

lemma cleanup_session:
  assumes "run_checker session_step False (trace w) = Some True"
  shows "run_checker session_step False (trace (snd (cleanup w))) =
           Some (fst (cleanup w) \<noteq> Returns ())"
proof -
  let ?a = "if receiver_task w = Some Running then [CancelReceiverTask] else []"
  let ?b = "if dg_ws w = Some False then [CloseUpstream] else []"
  let ?c = "if aiohttp_session_closed w then [] else [CloseClientSession]"
  have a: "run_checker session_step True ?a = Some True" by simp
  have b: "run_checker session_step True ?b = Some True" by simp
  have c: "run_checker session_step True ?c = Some True" by simp
  show ?thesis
  proof (cases "fst (cleanup w) = Returns ()")
    case True
    then have "trace (snd (cleanup w)) = trace w @ ?a @ ?b @ ?c @ [Print SessionCleanedUp]"
      unfolding cleanup_outcome by (subst cleanup_trace) auto
    with assms a b c True show ?thesis by (simp add: run_checker_append)
  next
    case False
    then have "trace (snd (cleanup w)) = trace w @ ?a @ ?b @
        (if dg_ws w = Some False \<and> raises_next (upstream_closes w) then [] else ?c)"
      unfolding cleanup_outcome by (subst cleanup_trace) auto
    with assms a b c False show ?thesis by (simp add: run_checker_append)
  qed
qed

lemma utterance_session_session:
  assumes "utterance_session loads w = (r, w')"
      and "run_checker session_step False (trace w) = Some True"
  shows "\<exists>a. run_checker session_step False (trace w') = Some a \<and>
           (r = Returns () \<longrightarrow> \<not> a \<and> receiver_done w')"
proof -
  let ?w0 = "emit NewClientSession (w\<lparr>dg_ws := None, aiohttp_session_closed := False\<rparr>)"
  obtain r1 w1 where s: "session_try loads ?w0 = (r1, w1)" by (cases "session_try loads ?w0")
  have "run_checker session_step False (trace ?w0) = Some True"
    using assms(2) by (simp add: run_checker_append)
  from session_try_session [OF s this]
  have w1: "run_checker session_step False (trace w1) = Some True" .
  show ?thesis
  proof (cases "r1 = Waits")
    case True
    with s w1 assms(1) show ?thesis by (auto simp: utterance_session_def)
  next
    case False
    obtain r2 w2 where c2: "cleanup w1 = (r2, w2)" by (cases "cleanup w1")
    from cleanup_session [OF w1] c2
    have w2: "run_checker session_step False (trace w2) = Some (r2 \<noteq> Returns ())" by simp
    from cleanup_receiver_done [of w1] c2 have d: "receiver_done w2" by simp
    from False s c2 assms(1) have "w' = w2" "r = Returns () \<longrightarrow> r2 = Returns ()"
      by (cases r1; cases r2; simp add: utterance_session_def)+
    with w2 d show ?thesis by auto
  qed
qed

lemma client_loop_session:
  "client_loop loads w = (r, w') \<Longrightarrow> run_checker session_step False (trace w) = Some False \<Longrightarrow>
     receiver_done w \<Longrightarrow> \<exists>a. run_checker session_step False (trace w') = Some a"
proof (induction loads w arbitrary: r w' rule: client_loop.induct)
  case (1 loads w)
  obtain r1 w1 where rt: "receive_text loads (emit ReceiveText w) = (r1, w1)"
    by (cases "receive_text loads (emit ReceiveText w)")
  from receive_text_idle [OF rt] "1.prems"(3)
  have t1: "trace w1 = trace w @ [ReceiveText]" and d1: "receiver_done w1" by simp_all
  then have w1: "run_checker session_step False (trace w1) = Some False"
    using "1.prems"(2) by (simp add: run_checker_append)
  show ?case
  proof (cases r1)
    case (Raises e)
    with rt "1.prems"(1) w1 show ?thesis by (auto simp: client_loop.simps [of loads w])
  next
    case Waits
    with rt "1.prems"(1) w1 show ?thesis by (auto simp: client_loop.simps [of loads w])
  next
    case (Returns message)
    note r1 = Returns
    show ?thesis
    proof (cases "loads message")
      case None
      with r1 rt "1.prems"(1) w1 show ?thesis by (auto simp: client_loop.simps [of loads w])
    next
      case (Some data)
      show ?thesis
      proof (cases "py_get data ''action'' JNull")
        case (Inl e)
        with Some r1 rt "1.prems"(1) w1 show ?thesis
          by (auto simp: client_loop.simps [of loads w])
      next
        case (Inr action)
        show ?thesis
        proof (cases "action \<noteq> JStr ''start_transcription''")
          case True
          with Inr Some r1 rt "1.prems"(1) have "client_loop loads w1 = (r, w')"
            by (simp add: client_loop.simps [of loads w])
          from "1.IH"(1) [OF rt [symmetric] r1 Some Inr True this w1 d1] show ?thesis .
        next
          case False
          obtain r2 w2 where
            u: "utterance_session loads (emit (Print StartSignalReceived) w1) = (r2, w2)"
            by (cases "utterance_session loads (emit (Print StartSignalReceived) w1)")
          have "run_checker session_step False (trace (emit (Print StartSignalReceived) w1)) =
                  Some True"
            using w1 by (simp add: run_checker_append)
          from utterance_session_session [OF u this] obtain a where
            a: "run_checker session_step False (trace w2) = Some a"
              "r2 = Returns () \<longrightarrow> \<not> a \<and> receiver_done w2" by blast
          show ?thesis
          proof (cases r2)
            case (Returns u')
            with False Inr Some r1 rt u "1.prems"(1)
            have "client_loop loads w2 = (r, w')"
              by (simp add: client_loop.simps [of loads w])
            from "1.IH"(2) [OF rt [symmetric] r1 Some Inr False u [symmetric] Returns this]
              a Returns show ?thesis by simp
          next
            case (Raises e)
            with False Inr Some r1 rt u "1.prems"(1) a show ?thesis
              by (auto simp: client_loop.simps [of loads w])
          next
            case Waits
            with False Inr Some r1 rt u "1.prems"(1) a show ?thesis
              by (auto simp: client_loop.simps [of loads w])
          qed
        qed
      qed
    qed
  qed
qed

text \<open>
  Claim C6. The trace of \<^verbatim>\<open>websocket_endpoint\<close> passes the checker of the sessions, from
  a world where no session is active and no relay task runs: a start signal is taken,
  and a text frame is read, only when the clean-up of the session before has printed its
  last line, and everything a session does comes while it is the active one.
\<close>

theorem one_session_at_a_time:
  assumes "run_checker session_step False (trace w) = Some False" and "receiver_done w"
  shows "\<exists>a. run_checker session_step False (trace (snd (websocket_endpoint loads w))) = Some a"
proof -
  let ?w0 = "emit (Print ClientConnected) (emit Accept w)"
  obtain r1 w1 where c: "client_loop loads ?w0 = (r1, w1)" by (cases "client_loop loads ?w0")
  have "run_checker session_step False (trace ?w0) = Some False"
    using assms(1) by (simp add: run_checker_append)
  from client_loop_session [OF c this] assms(2) obtain a where
    a: "run_checker session_step False (trace w1) = Some a" by auto
  with c show ?thesis
    by (cases r1) (auto simp: websocket_endpoint_def run_checker_append)
qed

theorem one_session_at_a_time_witness:
  "\<exists>a. run_checker session_step False
         (trace (snd (websocket_endpoint demo_loads scenario_world))) = Some a"
  using one_session_at_a_time [of scenario_world demo_loads]
  by (simp add: scenario_world_def fresh_world_def receiver_done_def)

subsection \<open>Frames that are not a start signal\<close>

text \<open>
  Claim C4, as the code has it. A text frame that decodes to an object whose action is
  not \<^verbatim>\<open>start_transcription\<close> (or that has no action) is ignored: the loop goes on with
  the next frame. A text frame that is not valid JSON raises \<^verbatim>\<open>JSONDecodeError\<close> and one
  that decodes to a value that is not an object raises \<^verbatim>\<open>AttributeError\<close>; either ends
  the loop of the client.
\<close>

theorem frame_without_start_action:
  assumes "inbox w = Client (CText message) # rest"
  shows "(loads message = None \<longrightarrow>
            client_loop loads w = (Raises JSONDecodeError, (emit ReceiveText w)\<lparr>inbox := rest\<rparr>)) \<and>
         (\<forall>data. loads message = Some data \<and> (\<forall>kvs. data \<noteq> JObj kvs) \<longrightarrow>
            client_loop loads w = (Raises AttributeError, (emit ReceiveText w)\<lparr>inbox := rest\<rparr>)) \<and>
         (\<forall>kvs. loads message = Some (JObj kvs) \<and>
              map_of kvs ''action'' \<noteq> Some (JStr ''start_transcription'') \<longrightarrow>
            client_loop loads w = client_loop loads ((emit ReceiveText w)\<lparr>inbox := rest\<rparr>))"
proof -
  have r: "receive_text loads (emit ReceiveText w) = (Returns message, (emit ReceiveText w)\<lparr>inbox := rest\<rparr>)"
    using assms by (simp add: receive_text.simps [of loads "emit ReceiveText w"])
  have a: "py_get data ''action'' JNull = Inl AttributeError" if "\<forall>kvs. data \<noteq> JObj kvs" for data
    using that by (cases data) auto
  show ?thesis
    using r a by (auto simp: client_loop.simps [of loads w] split: option.splits)
qed

theorem frame_without_start_action_witness:
  "client_loop demo_loads (fresh_world\<lparr>inbox := [Client (CText ''{}''), Client CDisconnect]\<rparr>) =
     (Raises WebSocketDisconnect, fresh_world\<lparr>trace := [ReceiveText, ReceiveText]\<rparr>)"
  using frame_without_start_action [of "fresh_world\<lparr>inbox := [Client (CText ''{}''), Client CDisconnect]\<rparr>"
      "''{}''" "[Client CDisconnect]" demo_loads]
  by (simp add: fresh_world_def demo_loads_simps emit_def client_loop.simps receive_text.simps)

text \<open>
  The claim as the specification states it fails: after a frame that is not valid JSON
  the endpoint prints the error and returns; the start signal that follows is not read.
\<close>

theorem not_json_ends_endpoint:
  "websocket_endpoint demo_loads
     (fresh_world\<lparr>inbox := [Client (CText ''not json''), Client (CText start_text)]\<rparr>) =
   (Returns (),
    fresh_world\<lparr>inbox := [Client (CText start_text)],
      trace := [Accept, Print ClientConnected, ReceiveText, Print (ErrorOccurred JSONDecodeError),
                Print ClosingConnection]\<rparr>)"
  by (simp add: websocket_endpoint_def fresh_world_def demo_loads_simps emit_def
      client_loop.simps receive_text.simps)

subsection \<open>Failures inside a session\<close>

lemma start_frame:
  assumes "inbox w = Client (CText message) # rest"
      and "loads message = Some (JObj kvs)"
      and "map_of kvs ''action'' = Some (JStr ''start_transcription'')"
  shows "client_loop loads w =
           (case utterance_session loads
                   (emit (Print StartSignalReceived) ((emit ReceiveText w)\<lparr>inbox := rest\<rparr>)) of
              (Returns u, w2) \<Rightarrow> client_loop loads w2
            | (r, w2) \<Rightarrow> (r, w2))"
proof -
  have "receive_text loads (emit ReceiveText w) =
          (Returns message, (emit ReceiveText w)\<lparr>inbox := rest\<rparr>)"
    using assms(1) by (simp add: receive_text.simps [of loads "emit ReceiveText w"])
  with assms(2,3) show ?thesis by (simp add: client_loop.simps [of loads w])
qed

lemma connect_failure_session:
  assumes "connects w = ConnectFails e # cs" and "receiver_done w"
      and "\<not> raises_next (session_closes w)"
  shows "fst (utterance_session loads w) = Raises e \<and>
         inbox (snd (utterance_session loads w)) = inbox w \<and>
         trace (snd (utterance_session loads w)) =
           trace w @ [NewClientSession, WsConnect, CloseClientSession, Print SessionCleanedUp]"
proof -
  let ?w0 = "emit NewClientSession (w\<lparr>dg_ws := None, aiohttp_session_closed := False\<rparr>)"
  let ?w1 = "(emit WsConnect ?w0)\<lparr>connects := cs\<rparr>"
  have s: "session_try loads ?w0 = (Raises e, ?w1)"
    using assms(1) by (simp add: session_try_def ws_connect_def Let_def emit_def)
  have d: "receiver_task ?w1 \<noteq> Some Running"
    using assms(2) by (auto simp: receiver_done_def emit_def split: option.splits)
  have o: "fst (cleanup ?w1) = Returns ()"
    using assms(3) by (simp add: cleanup_outcome emit_def)
  have t: "trace (snd (cleanup ?w1)) = trace ?w1 @ [CloseClientSession, Print SessionCleanedUp]"
    using assms(3) d by (simp add: cleanup_trace emit_def)
  from finally_cleanup [OF s] o t show ?thesis by (simp add: emit_def)
qed

lemma send_failure_session:
  assumes "connects w = Connected items closed # cs"
      and "inbox w = Client (CBytes data) # rest"
      and "byte_sends w = (n, Some e) # bs"
      and "\<not> raises_next (upstream_closes w)" and "\<not> raises_next (session_closes w)"
  shows "fst (utterance_session loads w) = Raises e \<and>
         inbox (snd (utterance_session loads w)) = rest"
proof -
  let ?w0 = "emit NewClientSession (w\<lparr>dg_ws := None, aiohttp_session_closed := False\<rparr>)"
  obtain w1 where s: "session_try loads ?w0 = (Raises e, w1)"
    and w1: "inbox w1 = rest" "upstream_closes w1 = upstream_closes w"
      "session_closes w1 = session_closes w"
    using assms(1,2,3)
    by (simp add: session_try_def ws_connect_def Let_def emit_def forward_loop.simps
        wait_first.simps receiver_done_def complete_receive_def send_bytes_def)
  have o: "fst (cleanup w1) = Returns ()"
    using assms(4,5) w1 by (simp add: cleanup_outcome)
  from finally_cleanup [OF s] o w1 show ?thesis by simp
qed

lemma relay_failure_session:
  assumes "connects w = Connected (IterRaise e # items) closed # cs" and "is_Exception e"
      and "inbox w = Upstream # rest"
      and "\<not> raises_next (upstream_closes w)" and "\<not> raises_next (session_closes w)"
  shows "fst (utterance_session loads w) = Returns () \<and>
         inbox (snd (utterance_session loads w)) = rest \<and>
         trace (snd (utterance_session loads w)) =
           trace w @ [NewClientSession, WsConnect, CreateReceiverTask, CreateReceiveBytes,
                      Print (ErrorInReceiverTask e), CancelReceiveBytes] @
           (if closed then [] else [CloseUpstream]) @ [CloseClientSession, Print SessionCleanedUp]"
proof -
  let ?w0 = "emit NewClientSession (w\<lparr>dg_ws := None, aiohttp_session_closed := False\<rparr>)"
  obtain w1 where s: "session_try loads ?w0 = (Returns (), w1)"
    and w1: "inbox w1 = rest" "upstream_closes w1 = upstream_closes w"
      "session_closes w1 = session_closes w" "dg_ws w1 = Some closed"
      "\<not> aiohttp_session_closed w1" "receiver_task w1 = Some (Finished None)"
      "trace w1 = trace w @ [NewClientSession, WsConnect, CreateReceiverTask, CreateReceiveBytes,
                      Print (ErrorInReceiverTask e), CancelReceiveBytes]"
    using assms(1,2,3)
    by (simp add: session_try_def ws_connect_def Let_def emit_def forward_loop.simps
        wait_first.simps receiver_done_def relay_turn_def relay_ends_def except_Exception_def)
  have o: "fst (cleanup w1) = Returns ()"
    using assms(4,5) w1 by (simp add: cleanup_outcome)
  have t: "trace (snd (cleanup w1)) = trace w1 @ (if closed then [] else [CloseUpstream]) @
             [CloseClientSession, Print SessionCleanedUp]"
    using assms(4,5) w1 by (simp add: cleanup_trace)
  from finally_cleanup [OF s] o t w1 show ?thesis by simp
qed

lemma failed_sends_append: "failed_sends (xs @ ys) = failed_sends xs @ failed_sends ys"
  by (induction xs rule: failed_sends.induct) auto

lemma failed_receives_append:
  "failed_receives (xs @ ys) = failed_receives xs @ failed_receives ys"
  by (induction xs rule: failed_receives.induct) auto

lemma relay_turn_sends [simp]:
  "byte_sends (relay_turn loads w) = byte_sends w"
  "connects (relay_turn loads w) = connects w"
  by (auto simp: relay_turn_def relay_ends_def except_Exception_def receiver_body_def emit_def
      send_json_def
      split: list.splits ws_item.splits step.splits option.splits sum.splits if_splits prod.splits)

lemma relay_turns_sends [simp]:
  "byte_sends (relay_turns loads n w) = byte_sends w"
  "connects (relay_turns loads n w) = connects w"
  by (induction n arbitrary: w) auto

lemma complete_receive_failures:
  "complete_receive ev w = (x, w1) \<Longrightarrow>
     inbox w1 = inbox w \<and> byte_sends w1 = byte_sends w \<and>
     upstream_closes w1 = upstream_closes w \<and> session_closes w1 = session_closes w \<and>
     failed_receives [Client ev] = (case x of ClientDone (Inl e) \<Rightarrow> [e] | _ \<Rightarrow> []) \<and>
     failed_receives [Both ev] = (case x of ClientDone (Inl e) \<Rightarrow> [e] | _ \<Rightarrow> []) \<and>
     client_bytes [Client ev] = (case x of ClientDone (Inr d) \<Rightarrow> [d] | _ \<Rightarrow> []) \<and>
     client_bytes [Both ev] = (case x of ClientDone (Inr d) \<Rightarrow> [d] | _ \<Rightarrow> [])"
  by (cases ev) (auto simp: complete_receive_def emit_def)

lemma wait_first_failures:
  "wait_first loads w = (x, w1) \<Longrightarrow>
     \<exists>taken. inbox w = taken @ inbox w1 \<and> byte_sends w1 = byte_sends w \<and>
       upstream_closes w1 = upstream_closes w \<and> session_closes w1 = session_closes w \<and>
       failed_receives taken = (case x of ClientDone (Inl e) \<Rightarrow> [e] | _ \<Rightarrow> []) \<and>
       client_bytes taken = (case x of ClientDone (Inr d) \<Rightarrow> [d] | _ \<Rightarrow> [])"
proof (induction loads w arbitrary: x w1 rule: wait_first.induct)
  case (1 loads w)
  show ?case
  proof (cases "receiver_done w")
    case True
    with "1.prems" show ?thesis by (simp add: wait_first.simps [of loads w])
  next
    case False
    show ?thesis
    proof (cases "inbox w")
      case Nil
      with False "1.prems" show ?thesis by (simp add: wait_first.simps [of loads w])
    next
      case (Cons a rest)
      show ?thesis
      proof (cases a)
        case (Client ev)
        with False Cons "1.prems" have "complete_receive ev (w\<lparr>inbox := rest\<rparr>) = (x, w1)"
          by (simp add: wait_first.simps [of loads w])
        from complete_receive_failures [OF this] Cons Client show ?thesis
          by (intro exI [of _ "[a]"]) simp
      next
        case Upstream
        with False Cons "1.prems"
        have "wait_first loads (relay_turn loads (w\<lparr>inbox := rest\<rparr>)) = (x, w1)"
          by (simp add: wait_first.simps [of loads w])
        from "1.IH" [OF False Cons Upstream this] obtain taken where
          "rest = taken @ inbox w1" "byte_sends w1 = byte_sends w"
          "upstream_closes w1 = upstream_closes w" "session_closes w1 = session_closes w"
          "failed_receives taken = (case x of ClientDone (Inl e) \<Rightarrow> [e] | _ \<Rightarrow> [])"
          "client_bytes taken = (case x of ClientDone (Inr d) \<Rightarrow> [d] | _ \<Rightarrow> [])"
          by (auto simp: relay_turn_inbox)
        with Cons Upstream show ?thesis
          by (intro exI [of _ "Upstream # taken"]) simp
      next
        case (Both ev)
        with False Cons "1.prems"
        have "complete_receive ev (relay_turn loads (w\<lparr>inbox := rest\<rparr>)) = (x, w1)"
          by (simp add: wait_first.simps [of loads w])
        from complete_receive_failures [OF this] Cons Both show ?thesis
          by (intro exI [of _ "[a]"]) (simp add: relay_turn_inbox)
      qed
    qed
  qed
qed

lemma send_bytes_failures:
  "send_bytes loads data w = (r, w') \<Longrightarrow>
     inbox w' = inbox w \<and>
     upstream_closes w' = upstream_closes w \<and> session_closes w' = session_closes w \<and>
     (\<exists>used. byte_sends w = used @ byte_sends w' \<and> used = take 1 (byte_sends w) \<and>
        failed_sends used = (case r of Raises e \<Rightarrow> [e] | _ \<Rightarrow> []))"
proof (cases "byte_sends w")
  case Nil
  assume "send_bytes loads data w = (r, w')"
  with Nil show ?thesis
    by (intro conjI exI [of _ "[]"]) (auto simp: send_bytes_def Let_def emit_def)
next
  case (Cons p bs)
  assume s: "send_bytes loads data w = (r, w')"
  obtain n res where p: "p = (n, res)" by (cases p)
  from s Cons p have w': "w' = relay_turns loads n ((emit (SendBytes data) w)\<lparr>byte_sends := bs\<rparr>)"
    and r: "r = (case res of None \<Rightarrow> Returns () | Some e \<Rightarrow> Raises e)"
    by (auto simp: send_bytes_def Let_def emit_def)
  have 1: "inbox w' = inbox w" using send_bytes_inbox [OF s] .
  have 2: "upstream_closes w' = upstream_closes w" "session_closes w' = session_closes w"
    "byte_sends w' = bs"
    by (simp_all add: w' emit_def)
  have 3: "failed_sends [p] = (case r of Raises e \<Rightarrow> [e] | _ \<Rightarrow> [])"
    by (cases res) (simp_all add: p r)
  from 1 2 3 Cons show ?thesis by (intro conjI exI [of _ "[p]"]) simp_all
qed

lemma forward_loop_failures:
  "forward_loop loads w = (r, w') \<Longrightarrow>
     \<exists>taken used. inbox w = taken @ inbox w' \<and> byte_sends w = used @ byte_sends w' \<and>
       upstream_closes w' = upstream_closes w \<and> session_closes w' = session_closes w \<and>
       used = take (length (client_bytes taken)) (byte_sends w) \<and>
       failed_sends used @ failed_receives taken = (case r of Raises e \<Rightarrow> [e] | _ \<Rightarrow> [])"
proof (induction loads w arbitrary: r w' rule: forward_loop.induct)
  case (1 loads w)
  show ?case
  proof (cases "receiver_done w")
    case True
    with "1.prems" have "r = Returns ()" "w' = w"
      by (simp_all add: forward_loop.simps [of loads w])
    then show ?thesis by (intro exI [of _ "[]"]) simp
  next
    case False
    obtain x w1 where x: "wait_first loads (emit CreateReceiveBytes w) = (x, w1)"
      by (cases "wait_first loads (emit CreateReceiveBytes w)")
    from wait_first_failures [OF x] obtain t1 where
      t1: "inbox w = t1 @ inbox w1" "byte_sends w1 = byte_sends w"
        "upstream_closes w1 = upstream_closes w" "session_closes w1 = session_closes w"
        "failed_receives t1 = (case x of ClientDone (Inl e) \<Rightarrow> [e] | _ \<Rightarrow> [])"
        "client_bytes t1 = (case x of ClientDone (Inr d) \<Rightarrow> [d] | _ \<Rightarrow> [])"
      by (auto simp: emit_def)
    show ?thesis
    proof (cases x)
      case WaitsForever
      with False x "1.prems" have "r = Waits" "w' = w1"
        by (simp_all add: forward_loop.simps [of loads w])
      with WaitsForever t1 show ?thesis
        by (intro exI [of _ t1] exI [of _ "[]"]) simp
    next
      case ClientPending
      with False x "1.prems" have "forward_loop loads (emit CancelReceiveBytes w1) = (r, w')"
        by (simp add: forward_loop.simps [of loads w])
      from "1.IH"(2) [OF False x [symmetric] ClientPending this] obtain t2 u2 where
        i: "inbox w1 = t2 @ inbox w'" "byte_sends w1 = u2 @ byte_sends w'"
          "upstream_closes w' = upstream_closes w1" "session_closes w' = session_closes w1"
          "failed_sends u2 @ failed_receives t2 = (case r of Raises e \<Rightarrow> [e] | _ \<Rightarrow> [])"
          "u2 = take (length (client_bytes t2)) (byte_sends w1)"
        by (auto simp: emit_def)
      have a: "inbox w = (t1 @ t2) @ inbox w'" using t1(1) i(1) by simp
      have b: "byte_sends w = u2 @ byte_sends w'" using t1(2) i(2) by simp
      have c: "upstream_closes w' = upstream_closes w" "session_closes w' = session_closes w"
        using t1(3,4) i(3,4) by simp_all
      have d: "u2 = take (length (client_bytes (t1 @ t2))) (byte_sends w)"
        using i(6) t1(2,6) ClientPending by (simp add: client_bytes_append)
      have e: "failed_sends u2 @ failed_receives (t1 @ t2) =
                 (case r of Raises e \<Rightarrow> [e] | _ \<Rightarrow> [])"
        using i(5) t1(5) ClientPending by (simp add: failed_receives_append)
      from a b c d e show ?thesis by blast
    next
      case (ClientDone res)
      show ?thesis
      proof (cases res)
        case (Inl e)
        with ClientDone False x "1.prems" have "r = Raises e" "w' = w1"
          by (simp_all add: forward_loop.simps [of loads w])
        with Inl ClientDone t1 show ?thesis
          by (intro exI [of _ t1] exI [of _ "[]"]) simp
      next
        case (Inr data)
        obtain r2 w2 where s: "send_bytes loads data w1 = (r2, w2)"
          by (cases "send_bytes loads data w1")
        from send_bytes_failures [OF s] obtain u1 where
          u1: "inbox w2 = inbox w1" "upstream_closes w2 = upstream_closes w1"
            "session_closes w2 = session_closes w1" "byte_sends w1 = u1 @ byte_sends w2"
            "failed_sends u1 = (case r2 of Raises e \<Rightarrow> [e] | _ \<Rightarrow> [])"
            "u1 = take 1 (byte_sends w1)"
          by auto
        show ?thesis
        proof (cases r2)
          case (Returns u)
          with Inr ClientDone False x s "1.prems" have "forward_loop loads w2 = (r, w')"
            by (simp add: forward_loop.simps [of loads w])
          from "1.IH"(1) [OF False x [symmetric] ClientDone Inr s [symmetric] Returns this]
          obtain t2 u2 where
            i: "inbox w2 = t2 @ inbox w'" "byte_sends w2 = u2 @ byte_sends w'"
              "upstream_closes w' = upstream_closes w2" "session_closes w' = session_closes w2"
              "failed_sends u2 @ failed_receives t2 = (case r of Raises e \<Rightarrow> [e] | _ \<Rightarrow> [])"
              "u2 = take (length (client_bytes t2)) (byte_sends w2)"
            by auto
          have k: "u1 @ take k (byte_sends w2) = take (Suc k) (byte_sends w1)" for k
            using u1(4,6) by (cases "byte_sends w1") auto
          have a: "inbox w = (t1 @ t2) @ inbox w'" using t1(1) u1(1) i(1) by simp
          have b: "byte_sends w = (u1 @ u2) @ byte_sends w'" using t1(2) u1(4) i(2) by simp
          have c: "upstream_closes w' = upstream_closes w" "session_closes w' = session_closes w"
            using t1(3,4) u1(2,3) i(3,4) by simp_all
          have "u1 @ u2 = take (Suc (length (client_bytes t2))) (byte_sends w1)"
            unfolding i(6) by (rule k)
          then have d: "u1 @ u2 = take (length (client_bytes (t1 @ t2))) (byte_sends w)"
            using t1(2,6) ClientDone Inr by (simp add: client_bytes_append)
          have e: "failed_sends (u1 @ u2) @ failed_receives (t1 @ t2) =
                     (case r of Raises e \<Rightarrow> [e] | _ \<Rightarrow> [])"
            using i(5) t1(5) u1(5) ClientDone Inr Returns
            by (simp add: failed_receives_append failed_sends_append)
          from a b c d e show ?thesis by blast
        next
          case (Raises e)
          with Inr ClientDone False x s "1.prems" have "r = Raises e" "w' = w2"
            by (simp_all add: forward_loop.simps [of loads w])
          have a: "inbox w = t1 @ inbox w'" "byte_sends w = u1 @ byte_sends w'"
            "upstream_closes w' = upstream_closes w" "session_closes w' = session_closes w"
            using t1(1,2,3,4) u1(1,2,3,4) \<open>w' = w2\<close> by simp_all
          have d: "u1 = take (length (client_bytes t1)) (byte_sends w)"
            using u1(6) t1(2,6) ClientDone Inr by simp
          have e: "failed_sends u1 @ failed_receives t1 =
                     (case r of Raises e \<Rightarrow> [e] | _ \<Rightarrow> [])"
            using t1(5) u1(5) ClientDone Inr Raises \<open>r = Raises e\<close> by simp
          from a d e show ?thesis by blast
        next
          case Waits
          with Inr ClientDone False x s "1.prems" have "r = Waits" "w' = w2"
            by (simp_all add: forward_loop.simps [of loads w])
          have a: "inbox w = t1 @ inbox w'" "byte_sends w = u1 @ byte_sends w'"
            "upstream_closes w' = upstream_closes w" "session_closes w' = session_closes w"
            using t1(1,2,3,4) u1(1,2,3,4) \<open>w' = w2\<close> by simp_all
          have d: "u1 = take (length (client_bytes t1)) (byte_sends w)"
            using u1(6) t1(2,6) ClientDone Inr by simp
          have e: "failed_sends u1 @ failed_receives t1 =
                     (case r of Raises e \<Rightarrow> [e] | _ \<Rightarrow> [])"
            using t1(5) u1(5) ClientDone Inr Waits \<open>r = Waits\<close> by simp
          from a d e show ?thesis by blast
        qed
      qed
    qed
  qed
qed

lemma session_try_failures:
  assumes "connects w = Connected items closed # cs" and "session_try loads w = (r, w')"
  shows "\<exists>taken used. inbox w = taken @ inbox w' \<and> byte_sends w = used @ byte_sends w' \<and>
       upstream_closes w' = upstream_closes w \<and> session_closes w' = session_closes w \<and>
       used = take (length (client_bytes taken)) (byte_sends w) \<and>
       failed_sends used @ failed_receives taken = (case r of Raises e \<Rightarrow> [e] | _ \<Rightarrow> [])"
proof -
  let ?v = "emit CreateReceiverTask
      ((emit WsConnect w)\<lparr>connects := cs, dg_ws := Some closed, upstream := items,
                           receiver_task := Some Running\<rparr>)"
  from assms have "forward_loop loads ?v = (r, w')"
    by (simp add: session_try_def ws_connect_def Let_def emit_def)
  from forward_loop_failures [OF this] obtain taken used where
    i: "inbox ?v = taken @ inbox w'" "byte_sends ?v = used @ byte_sends w'"
      "upstream_closes w' = upstream_closes ?v" "session_closes w' = session_closes ?v"
      "used = take (length (client_bytes taken)) (byte_sends ?v)"
      "failed_sends used @ failed_receives taken = (case r of Raises e \<Rightarrow> [e] | _ \<Rightarrow> [])"
    by blast
  have a: "inbox w = taken @ inbox w'" "byte_sends w = used @ byte_sends w'"
    "upstream_closes w' = upstream_closes w" "session_closes w' = session_closes w"
    using i(1,2,3,4) by (simp_all add: emit_def)
  have d: "used = take (length (client_bytes taken)) (byte_sends w)"
    using i(5) by (simp add: emit_def)
  from a d i(6) show ?thesis by blast
qed

lemma cleanup_sends [simp]: "byte_sends (snd (cleanup w)) = byte_sends w"
  by (auto simp: cleanup_def Let_def emit_def receiver_task_cancel_def dg_ws_close_def
      aiohttp_session_close_def
      split: list.splits option.splits if_splits outcome.splits prod.splits)

lemma utterance_failures:
  assumes "connects w = Connected items closed # cs"
      and "\<not> raises_next (upstream_closes w)" and "\<not> raises_next (session_closes w)"
      and "utterance_session loads w = (r, w')"
  shows "\<exists>taken used. inbox w = taken @ inbox w' \<and> byte_sends w = used @ byte_sends w' \<and>
       used = take (length (client_bytes taken)) (byte_sends w) \<and>
       failed_sends used @ failed_receives taken = (case r of Raises e \<Rightarrow> [e] | _ \<Rightarrow> [])"
proof -
  let ?w0 = "emit NewClientSession (w\<lparr>dg_ws := None, aiohttp_session_closed := False\<rparr>)"
  obtain r1 w1 where s: "session_try loads ?w0 = (r1, w1)" by (cases "session_try loads ?w0")
  have c: "connects ?w0 = Connected items closed # cs" using assms(1) by (simp add: emit_def)
  from session_try_failures [OF c s] obtain taken used where
    j: "inbox ?w0 = taken @ inbox w1" "byte_sends ?w0 = used @ byte_sends w1"
      "upstream_closes w1 = upstream_closes ?w0" "session_closes w1 = session_closes ?w0"
      "failed_sends used @ failed_receives taken = (case r1 of Raises e \<Rightarrow> [e] | _ \<Rightarrow> [])"
      "used = take (length (client_bytes taken)) (byte_sends ?w0)"
    by blast
  have i: "inbox w = taken @ inbox w1" "byte_sends w = used @ byte_sends w1"
      "upstream_closes w1 = upstream_closes w" "session_closes w1 = session_closes w"
    using j(1,2,3,4) by (simp_all add: emit_def)
  have d: "used = take (length (client_bytes taken)) (byte_sends w)"
    using j(6) by (simp add: emit_def)
  show ?thesis
  proof (cases "r1 = Waits")
    case True
    with s assms(4) have "r = Waits" "w' = w1" by (simp_all add: utterance_session_def)
    with i d j(5) True show ?thesis by blast
  next
    case False
    have o: "fst (cleanup w1) = Returns ()"
      using assms(2,3) i(3,4) by (simp add: cleanup_outcome)
    from finally_cleanup [OF s False] o assms(4) have e: "r = r1" "w' = snd (cleanup w1)"
      by simp_all
    have a: "inbox w = taken @ inbox w'" "byte_sends w = used @ byte_sends w'"
      using i(1,2) e(2) by simp_all
    from a d j(5) e(1) show ?thesis by blast
  qed
qed

lemma relay_failure_turn:
  assumes "receiver_task v = Some Running" and "is_Exception e"
      and "upstream v = IterRaise e # items \<or>
           (\<exists>msg. upstream v = Yield msg # items \<and>
              receiver_body loads msg (v\<lparr>upstream := items\<rparr>) = Raised e v2)"
  shows "receiver_task (relay_turn loads v) = Some (Finished None) \<and>
         trace (relay_turn loads v) =
           trace (if upstream v = IterRaise e # items then v else v2) @
           [Print (ErrorInReceiverTask e)] \<and>
         forward_loop loads (relay_turn loads v) = (Returns (), relay_turn loads v)"
  using assms
  by (auto simp: relay_turn_def relay_ends_def except_Exception_def emit_def
      forward_loop.simps receiver_done_def)

lemma second_send_session:
  "utterance_session demo_loads
     (emit (Print StartSignalReceived)
        ((emit ReceiveText second_send_world)
           \<lparr>inbox := [Client (CBytes ''a1''), Client (CBytes ''a2''), Client (CText start_text)]\<rparr>)) =
   (Raises ConnectionResetError,
    fresh_world\<lparr>inbox := [Client (CText start_text)], receiver_task := Some Cancelled,
      dg_ws := Some True, aiohttp_session_closed := True,
      trace := [ReceiveText, Print StartSignalReceived, NewClientSession, WsConnect,
                CreateReceiverTask, CreateReceiveBytes, GotBytes ''a1'', SendBytes ''a1'',
                CreateReceiveBytes, GotBytes ''a2'', SendBytes ''a2'', CancelReceiverTask,
                CloseUpstream, CloseClientSession, Print SessionCleanedUp]\<rparr>)"
  by (simp add: second_send_world_def fresh_world_def emit_def
      utterance_session_def session_try_def ws_connect_def cleanup_def Let_def
      aiohttp_session_close_def dg_ws_close_def receiver_task_cancel_def
      forward_loop.simps wait_first.simps receiver_done_def
      complete_receive_def send_bytes_def)

lemma late_relay_failure_session:
  "utterance_session demo_loads
     (emit (Print StartSignalReceived)
        ((emit ReceiveText late_relay_failure_world)
           \<lparr>inbox := [Client (CBytes ''a1''), Upstream, Both (CBytes ''a2'')]\<rparr>)) =
   (Returns (),
    fresh_world\<lparr>receiver_task := Some (Finished None),
      dg_ws := Some True, aiohttp_session_closed := True,
      trace := [ReceiveText, Print StartSignalReceived, NewClientSession, WsConnect,
                CreateReceiverTask, CreateReceiveBytes, GotBytes ''a1'', SendBytes ''a1'',
                CreateReceiveBytes,
                SendJson (stt_transcript (JStr ''hello world'') (JBool False)),
                Print (ErrorInReceiverTask ClientError), GotBytes ''a2'', SendBytes ''a2'',
                CloseClientSession, Print SessionCleanedUp]\<rparr>)"
  by (simp add: late_relay_failure_world_def fresh_world_def emit_def demo_loads_simps
      utterance_session_def session_try_def ws_connect_def cleanup_def Let_def
      aiohttp_session_close_def dg_ws_close_def receiver_task_cancel_def
      forward_loop.simps wait_first.simps receiver_done_def
      complete_receive_def send_bytes_def relay_turn_def relay_ends_def receiver_body_def
      except_Exception_def
      text_msg_def hello_json_def get_transcript_def str_strip_hello send_json_def)

text \<open>
  Claim C1, as the code has it. The loop of the client reads a start signal, no relay
  task runs, and neither close raises; the session that the signal starts ends with the
  outcome \<open>r\<close> in the world \<open>w'\<close>. The \<^verbatim>\<open>try\<close> of the session has no \<^verbatim>\<open>except\<close>
  clause: when the session raises, the loop of the client ends with this exception and
  the frames that follow are not read; when it returns, the loop goes on from \<open>w'\<close>.
  When the connect fails the session raises, after its clean-up. Once connected, the
  send of the k-th binary frame gets the k-th outcome of \<^verbatim>\<open>dg_ws.send_bytes\<close>, and the
  session raises exactly when one of its sends or one of its \<^verbatim>\<open>receive_bytes\<close> has
  failed, with the exception of that call: whichever send fails, the first or a later
  one, the session raises, and nothing that the relay does makes it raise. A relay
  whose next step fails, at whatever item of the upstream connection, prints the error
  and ends without an exception, and the forwarding loop then returns. An exception of
  the class \<^verbatim>\<open>Exception\<close> that ends the loop of the client is printed by the endpoint,
  which returns; what has not been read stays unread.
\<close>

theorem session_failures:
  assumes "inbox w = Client (CText message) # rest"
      and "loads message = Some (JObj kvs)"
      and "map_of kvs ''action'' = Some (JStr ''start_transcription'')"
      and "receiver_done w"
      and "\<not> raises_next (upstream_closes w)" and "\<not> raises_next (session_closes w)"
      and "utterance_session loads
             (emit (Print StartSignalReceived) ((emit ReceiveText w)\<lparr>inbox := rest\<rparr>)) = (r, w')"
  shows "(\<forall>e. r = Raises e \<longrightarrow> client_loop loads w = (Raises e, w')) \<and>
         (r = Returns () \<longrightarrow> client_loop loads w = client_loop loads w') \<and>
         (\<forall>e cs. connects w = ConnectFails e # cs \<longrightarrow>
            r = Raises e \<and> inbox w' = rest \<and>
            trace w' =
              trace w @ [ReceiveText, Print StartSignalReceived, NewClientSession, WsConnect,
                         CloseClientSession, Print SessionCleanedUp]) \<and>
         (\<forall>items closed cs. connects w = Connected items closed # cs \<longrightarrow>
            (\<exists>taken used. rest = taken @ inbox w' \<and> byte_sends w = used @ byte_sends w' \<and>
               used = take (length (client_bytes taken)) (byte_sends w) \<and>
               failed_sends used @ failed_receives taken =
                 (case r of Raises e \<Rightarrow> [e] | _ \<Rightarrow> []))) \<and>
         (\<forall>items closed cs data rest' n e bs.
            connects w = Connected items closed # cs \<and> rest = Client (CBytes data) # rest' \<and>
            byte_sends w = (n, Some e) # bs \<longrightarrow>
            r = Raises e \<and> inbox w' = rest') \<and>
         (\<forall>e items closed cs rest'.
            connects w = Connected (IterRaise e # items) closed # cs \<and> is_Exception e \<and>
            rest = Upstream # rest' \<longrightarrow>
            r = Returns () \<and> inbox w' = rest' \<and>
            trace w' =
              trace w @ [ReceiveText, Print StartSignalReceived, NewClientSession, WsConnect,
                         CreateReceiverTask, CreateReceiveBytes,
                         Print (ErrorInReceiverTask e), CancelReceiveBytes] @
              (if closed then [] else [CloseUpstream]) @
              [CloseClientSession, Print SessionCleanedUp]) \<and>
         (\<forall>v e items v2.
            receiver_task v = Some Running \<and> is_Exception e \<and>
            (upstream v = IterRaise e # items \<or>
             (\<exists>msg. upstream v = Yield msg # items \<and>
                receiver_body loads msg (v\<lparr>upstream := items\<rparr>) = Raised e v2)) \<longrightarrow>
            receiver_task (relay_turn loads v) = Some (Finished None) \<and>
            trace (relay_turn loads v) =
              trace (if upstream v = IterRaise e # items then v else v2) @
              [Print (ErrorInReceiverTask e)] \<and>
            forward_loop loads (relay_turn loads v) = (Returns (), relay_turn loads v)) \<and>
         (\<forall>v e v'.
            client_loop loads (emit (Print ClientConnected) (emit Accept v)) = (Raises e, v') \<and>
            is_Exception e \<longrightarrow>
            fst (websocket_endpoint loads v) = Returns () \<and>
            inbox (snd (websocket_endpoint loads v)) = inbox v' \<and>
            trace (snd (websocket_endpoint loads v)) =
              trace v' @
              [Print (if e = WebSocketDisconnect \<or> e = ConnectionResetError
                      then ClientDisconnected else ErrorOccurred e),
               Print ClosingConnection])"
proof -
  let ?w1 = "emit (Print StartSignalReceived) ((emit ReceiveText w)\<lparr>inbox := rest\<rparr>)"
  note sf = start_frame [of w message rest loads kvs, OF assms(1,2,3)]
  note us = assms(7)
  have d: "receiver_done ?w1" using assms(4) by (simp add: receiver_done_def emit_def)
  have u: "\<not> raises_next (upstream_closes ?w1)" using assms(5) by (simp add: emit_def)
  have c: "\<not> raises_next (session_closes ?w1)" using assms(6) by (simp add: emit_def)
  have 1: "client_loop loads w = (Raises e, w')" if "r = Raises e" for e
    unfolding sf us using that by simp
  have 2: "client_loop loads w = client_loop loads w'" if "r = Returns ()"
    unfolding sf us using that by simp
  have 3: "r = Raises e \<and> inbox w' = rest \<and>
            trace w' =
              trace w @ [ReceiveText, Print StartSignalReceived, NewClientSession, WsConnect,
                         CloseClientSession, Print SessionCleanedUp]"
    if "connects w = ConnectFails e # cs" for e cs
  proof -
    from that have "connects ?w1 = ConnectFails e # cs" by (simp add: emit_def)
    from connect_failure_session [OF this d c, of loads] show ?thesis
      unfolding us by (simp add: emit_def)
  qed
  have 4: "\<exists>taken used. rest = taken @ inbox w' \<and> byte_sends w = used @ byte_sends w' \<and>
               used = take (length (client_bytes taken)) (byte_sends w) \<and>
               failed_sends used @ failed_receives taken =
                 (case r of Raises e \<Rightarrow> [e] | _ \<Rightarrow> [])"
    if "connects w = Connected items closed # cs" for items closed cs
  proof -
    from that have "connects ?w1 = Connected items closed # cs" by (simp add: emit_def)
    from utterance_failures [OF this u c us] show ?thesis by (simp add: emit_def)
  qed
  have 5: "r = Raises e \<and> inbox w' = rest'"
    if "connects w = Connected items closed # cs" "rest = Client (CBytes data) # rest'"
      "byte_sends w = (n, Some e) # bs" for items closed cs data rest' n e bs
  proof -
    from that have "connects ?w1 = Connected items closed # cs"
      "inbox ?w1 = Client (CBytes data) # rest'" "byte_sends ?w1 = (n, Some e) # bs"
      by (simp_all add: emit_def)
    from send_failure_session [OF this u c, of loads] show ?thesis
      unfolding us by simp
  qed
  have 6: "r = Returns () \<and> inbox w' = rest' \<and>
               trace w' =
                 trace w @ [ReceiveText, Print StartSignalReceived, NewClientSession, WsConnect,
                            CreateReceiverTask, CreateReceiveBytes,
                            Print (ErrorInReceiverTask e), CancelReceiveBytes] @
                 (if closed then [] else [CloseUpstream]) @
                 [CloseClientSession, Print SessionCleanedUp]"
    if "connects w = Connected (IterRaise e # items) closed # cs" "is_Exception e"
      "rest = Upstream # rest'" for e items closed cs rest'
  proof -
    from that have "connects ?w1 = Connected (IterRaise e # items) closed # cs"
      "inbox ?w1 = Upstream # rest'"
      by (simp_all add: emit_def)
    from relay_failure_session [OF this(1) that(2) this(2) u c, of loads] show ?thesis
      unfolding us by (simp add: emit_def)
  qed
  have 7: "receiver_task (relay_turn loads v) = Some (Finished None) \<and>
            trace (relay_turn loads v) =
              trace (if upstream v = IterRaise e # items then v else v2) @
              [Print (ErrorInReceiverTask e)] \<and>
            forward_loop loads (relay_turn loads v) = (Returns (), relay_turn loads v)"
    if "receiver_task v = Some Running \<and> is_Exception e \<and>
            (upstream v = IterRaise e # items \<or>
             (\<exists>msg. upstream v = Yield msg # items \<and>
                receiver_body loads msg (v\<lparr>upstream := items\<rparr>) = Raised e v2))"
    for v e items v2
    using relay_failure_turn [of v e items loads v2] that by blast
  have 8: "fst (websocket_endpoint loads v) = Returns () \<and>
            inbox (snd (websocket_endpoint loads v)) = inbox v' \<and>
            trace (snd (websocket_endpoint loads v)) =
              trace v' @
              [Print (if e = WebSocketDisconnect \<or> e = ConnectionResetError
                      then ClientDisconnected else ErrorOccurred e),
               Print ClosingConnection]"
    if "client_loop loads (emit (Print ClientConnected) (emit Accept v)) = (Raises e, v') \<and>
            is_Exception e" for v e v'
    using that by (simp add: websocket_endpoint_def emit_def)
  show ?thesis
    apply (intro conjI allI impI)
    subgoal for e using 1 by simp
    subgoal using 2 by simp
    subgoal for e cs using 3 [of e cs] by simp
    subgoal for e cs using 3 [of e cs] by simp
    subgoal for e cs using 3 [of e cs] by simp
    subgoal for items closed cs using 4 [of items closed cs] by simp
    subgoal for items closed cs data rest' n e bs using 5 [of items closed cs data rest' n e bs] by simp
    subgoal for items closed cs data rest' n e bs using 5 [of items closed cs data rest' n e bs] by simp
    subgoal for e items closed cs rest' using 6 [of e items closed cs rest'] by simp
    subgoal for e items closed cs rest' using 6 [of e items closed cs rest'] by simp
    subgoal for e items closed cs rest' using 6 [of e items closed cs rest'] by simp
    subgoal for v e items v2 using 7 [of v e items v2] by simp
    subgoal for v e items v2 using 7 [of v e items v2] by simp
    subgoal for v e items v2 using 7 [of v e items v2] by simp
    subgoal for v e v' using 8 [of v e v'] by simp
    subgoal for v e v' using 8 [of v e v'] by simp
    subgoal for v e v' using 8 [of v e v'] by simp
    done
qed

theorem session_failures_witness:
  "(fst (client_loop demo_loads failing_connect_world) = Raises ClientError \<and>
    inbox (snd (client_loop demo_loads failing_connect_world)) = [Client (CText start_text)] \<and>
    trace (snd (client_loop demo_loads failing_connect_world)) =
      [ReceiveText, Print StartSignalReceived, NewClientSession, WsConnect,
       CloseClientSession, Print SessionCleanedUp]) \<and>
   client_loop demo_loads second_send_world =
     (Raises ConnectionResetError,
      fresh_world\<lparr>inbox := [Client (CText start_text)], receiver_task := Some Cancelled,
        dg_ws := Some True, aiohttp_session_closed := True,
        trace := [ReceiveText, Print StartSignalReceived, NewClientSession, WsConnect,
                  CreateReceiverTask, CreateReceiveBytes, GotBytes ''a1'', SendBytes ''a1'',
                  CreateReceiveBytes, GotBytes ''a2'', SendBytes ''a2'', CancelReceiverTask,
                  CloseUpstream, CloseClientSession, Print SessionCleanedUp]\<rparr>) \<and>
   (\<exists>taken used.
      [Client (CBytes ''a1''), Client (CBytes ''a2''), Client (CText start_text)] =
        taken @ [Client (CText start_text)] \<and>
      used = take (length (client_bytes taken)) [(0, None), (0, Some ConnectionResetError)] \<and>
      failed_sends used @ failed_receives taken = [ConnectionResetError]) \<and>
   client_loop demo_loads late_relay_failure_world =
     (Waits,
      fresh_world\<lparr>receiver_task := Some (Finished None),
        dg_ws := Some True, aiohttp_session_closed := True,
        trace := [ReceiveText, Print StartSignalReceived, NewClientSession, WsConnect,
                  CreateReceiverTask, CreateReceiveBytes, GotBytes ''a1'', SendBytes ''a1'',
                  CreateReceiveBytes,
                  SendJson (stt_transcript (JStr ''hello world'') (JBool False)),
                  Print (ErrorInReceiverTask ClientError), GotBytes ''a2'', SendBytes ''a2'',
                  CloseClientSession, Print SessionCleanedUp, ReceiveText]\<rparr>)"
proof -
  let ?kvs = "[(''action'', JStr ''start_transcription'')]"
  have l: "demo_loads start_text = Some (JObj ?kvs)"
    by (simp add: demo_loads_simps start_json_def)
  have m: "map_of ?kvs ''action'' = Some (JStr ''start_transcription'')" by simp
  let ?u = "utterance_session demo_loads
      (emit (Print StartSignalReceived)
         ((emit ReceiveText failing_connect_world)\<lparr>inbox := [Client (CText start_text)]\<rparr>))"
  have a: "inbox failing_connect_world = Client (CText start_text) # [Client (CText start_text)]"
    "receiver_done failing_connect_world"
    "\<not> raises_next (upstream_closes failing_connect_world)"
    "\<not> raises_next (session_closes failing_connect_world)"
    "connects failing_connect_world = ConnectFails ClientError # [Connected [] True]"
    "trace failing_connect_world = []"
    by (simp_all add: failing_connect_world_def fresh_world_def receiver_done_def)
  have ua: "?u = (fst ?u, snd ?u)" by simp
  note ta = session_failures [OF a(1) l m a(2) a(3) a(4) ua]
  from ta [THEN conjunct2, THEN conjunct2, THEN conjunct1, rule_format, OF a(5)]
  have ra: "fst ?u = Raises ClientError \<and> inbox (snd ?u) = [Client (CText start_text)] \<and>
      trace (snd ?u) = trace failing_connect_world @
        [ReceiveText, Print StartSignalReceived, NewClientSession, WsConnect,
         CloseClientSession, Print SessionCleanedUp]" .
  with ta [THEN conjunct1, rule_format, of ClientError]
  have "client_loop demo_loads failing_connect_world = (Raises ClientError, snd ?u)"
    by simp
  with ra a(6) have A: "fst (client_loop demo_loads failing_connect_world) = Raises ClientError \<and>
    inbox (snd (client_loop demo_loads failing_connect_world)) = [Client (CText start_text)] \<and>
    trace (snd (client_loop demo_loads failing_connect_world)) =
      [ReceiveText, Print StartSignalReceived, NewClientSession, WsConnect,
       CloseClientSession, Print SessionCleanedUp]"
    by simp
  have b: "inbox second_send_world =
      Client (CText start_text) #
      [Client (CBytes ''a1''), Client (CBytes ''a2''), Client (CText start_text)]"
    "receiver_done second_send_world"
    "\<not> raises_next (upstream_closes second_send_world)"
    "\<not> raises_next (session_closes second_send_world)"
    by (simp_all add: second_send_world_def fresh_world_def receiver_done_def)
  from session_failures [OF b(1) l m b(2) b(3) b(4) second_send_session,
      THEN conjunct1, rule_format, OF refl]
  have B: "client_loop demo_loads second_send_world =
     (Raises ConnectionResetError,
      fresh_world\<lparr>inbox := [Client (CText start_text)], receiver_task := Some Cancelled,
        dg_ws := Some True, aiohttp_session_closed := True,
        trace := [ReceiveText, Print StartSignalReceived, NewClientSession, WsConnect,
                  CreateReceiverTask, CreateReceiveBytes, GotBytes ''a1'', SendBytes ''a1'',
                  CreateReceiveBytes, GotBytes ''a2'', SendBytes ''a2'', CancelReceiverTask,
                  CloseUpstream, CloseClientSession, Print SessionCleanedUp]\<rparr>)" .
  have bc: "connects second_send_world = Connected [] False # []"
    by (simp add: second_send_world_def fresh_world_def)
  from session_failures [OF b(1) l m b(2) b(3) b(4) second_send_session,
      THEN conjunct2, THEN conjunct2, THEN conjunct2, THEN conjunct1, rule_format, OF bc]
  have D: "\<exists>taken used.
      [Client (CBytes ''a1''), Client (CBytes ''a2''), Client (CText start_text)] =
        taken @ [Client (CText start_text)] \<and>
      used = take (length (client_bytes taken)) [(0, None), (0, Some ConnectionResetError)] \<and>
      failed_sends used @ failed_receives taken = [ConnectionResetError]"
    by (simp add: second_send_world_def fresh_world_def)
  have c: "inbox late_relay_failure_world =
      Client (CText start_text) # [Client (CBytes ''a1''), Upstream, Both (CBytes ''a2'')]"
    "receiver_done late_relay_failure_world"
    "\<not> raises_next (upstream_closes late_relay_failure_world)"
    "\<not> raises_next (session_closes late_relay_failure_world)"
    by (simp_all add: late_relay_failure_world_def fresh_world_def receiver_done_def)
  let ?w3 = "fresh_world\<lparr>receiver_task := Some (Finished None),
        dg_ws := Some True, aiohttp_session_closed := True,
        trace := [ReceiveText, Print StartSignalReceived, NewClientSession, WsConnect,
                  CreateReceiverTask, CreateReceiveBytes, GotBytes ''a1'', SendBytes ''a1'',
                  CreateReceiveBytes,
                  SendJson (stt_transcript (JStr ''hello world'') (JBool False)),
                  Print (ErrorInReceiverTask ClientError), GotBytes ''a2'', SendBytes ''a2'',
                  CloseClientSession, Print SessionCleanedUp]\<rparr>"
  from session_failures [OF c(1) l m c(2) c(3) c(4) late_relay_failure_session,
      THEN conjunct2, THEN conjunct1, rule_format, OF refl]
  have "client_loop demo_loads late_relay_failure_world = client_loop demo_loads ?w3" .
  also have "client_loop demo_loads ?w3 =
     (Waits,
      fresh_world\<lparr>receiver_task := Some (Finished None),
        dg_ws := Some True, aiohttp_session_closed := True,
        trace := [ReceiveText, Print StartSignalReceived, NewClientSession, WsConnect,
                  CreateReceiverTask, CreateReceiveBytes, GotBytes ''a1'', SendBytes ''a1'',
                  CreateReceiveBytes,
                  SendJson (stt_transcript (JStr ''hello world'') (JBool False)),
                  Print (ErrorInReceiverTask ClientError), GotBytes ''a2'', SendBytes ''a2'',
                  CloseClientSession, Print SessionCleanedUp, ReceiveText]\<rparr>)"
    by (simp add: fresh_world_def emit_def client_loop.simps receive_text.simps)
  finally have C: "client_loop demo_loads late_relay_failure_world =
     (Waits,
      fresh_world\<lparr>receiver_task := Some (Finished None),
        dg_ws := Some True, aiohttp_session_closed := True,
        trace := [ReceiveText, Print StartSignalReceived, NewClientSession, WsConnect,
                  CreateReceiverTask, CreateReceiveBytes, GotBytes ''a1'', SendBytes ''a1'',
                  CreateReceiveBytes,
                  SendJson (stt_transcript (JStr ''hello world'') (JBool False)),
                  Print (ErrorInReceiverTask ClientError), GotBytes ''a2'', SendBytes ''a2'',
                  CloseClientSession, Print SessionCleanedUp, ReceiveText]\<rparr>)" .
  from A B C D show ?thesis by (intro conjI) simp_all
qed

text \<open>
  The claim as the specification states it fails: the connect is refused, the endpoint
  prints the error and returns, and the second start signal is not read.
\<close>

theorem failed_connect_ends_endpoint:
  "websocket_endpoint demo_loads failing_connect_world =
     (Returns (),
      fresh_world\<lparr>inbox := [Client (CText start_text)], connects := [Connected [] True],
        aiohttp_session_closed := True,
        trace := [Accept, Print ClientConnected, ReceiveText, Print StartSignalReceived,
                  NewClientSession, WsConnect, CloseClientSession, Print SessionCleanedUp,
                  Print (ErrorOccurred ClientError), Print ClosingConnection]\<rparr>)"
  by (simp add: websocket_endpoint_def failing_connect_world_def fresh_world_def
      demo_loads_simps start_json_def emit_def client_loop.simps receive_text.simps
      utterance_session_def session_try_def ws_connect_def cleanup_def Let_def
      aiohttp_session_close_def)

subsection \<open>The scenario of the specification\<close>

text \<open>
  A start signal, three binary frames, two transcripts from upstream, the end of the
  upstream connection: the three frames go upstream in order, the client gets the two
  notifications, the session is cleaned up, and the endpoint waits for the next start
  signal.
\<close>

lemma scenario_endpoint:
  "websocket_endpoint demo_loads scenario_world =
     (Waits,
      fresh_world\<lparr>receiver_task := Some (Finished None), dg_ws := Some True,
        aiohttp_session_closed := True,
        trace := [Accept, Print ClientConnected, ReceiveText, Print StartSignalReceived,
                  NewClientSession, WsConnect, CreateReceiverTask,
                  CreateReceiveBytes, GotBytes ''a1'', SendBytes ''a1'',
                  CreateReceiveBytes, GotBytes ''a2'', SendBytes ''a2'',
                  CreateReceiveBytes, GotBytes ''a3'', SendBytes ''a3'',
                  CreateReceiveBytes,
                  SendJson (stt_transcript (JStr ''hello world'') (JBool False)),
                  SendJson (stt_transcript (JStr ''hello world'') (JBool True)),
                  CancelReceiveBytes, CloseClientSession, Print SessionCleanedUp,
                  ReceiveText]\<rparr>)"
  by (simp add: websocket_endpoint_def scenario_world_def fresh_world_def
      demo_loads_simps demo_loads_simps start_json_def emit_def client_loop.simps
      receive_text.simps
      utterance_session_def session_try_def ws_connect_def cleanup_def Let_def
      aiohttp_session_close_def forward_loop.simps wait_first.simps receiver_done_def
      complete_receive_def send_bytes_def relay_turn_def relay_ends_def receiver_body_def
      text_msg_def hello_json_def get_transcript_def str_strip_hello send_json_def)

end
